theory Spec2Isabelle
  imports
    Complex_Main
    "HOL-Library.Word"
    "HOL-Library.Monad_Syntax"
    "HOL-Library.List_Lexorder"
    "HOL-Library.Char_ord"
begin

section \<open>The room list model of the client (roomlistmodel.cpp)\<close>

text \<open>
  The development embeds \<^verbatim>\<open>RoomListModel\<close>: a two-level tree of room groups (one per tag)
  and rooms, kept in order by two comparators. Results are \<open>option\<close> values: \<open>None\<close> means
  that the C++ call does not return normally, either because the wildcard loop of
  \<^verbatim>\<open>findIndexWithWildcards\<close> never ends or because a vector is accessed out of range
  (undefined behaviour). \<^verbatim>\<open>Q_ASSERT\<close> is compiled out, as in a release build.
\<close>

subsection \<open>Strings (QString) and the tag constants\<close>

definition DirectChat :: string where
  "DirectChat = ''org.qmatrixclient.direct''"

definition Untagged :: string where
  "Untagged = ''org.qmatrixclient.none''"

text \<open>The two tag names of the client library (\<^verbatim>\<open>QMatrixClient::FavouriteTag\<close>,
  \<^verbatim>\<open>QMatrixClient::LowPriorityTag\<close>), as the Matrix specification fixes them.\<close>

definition FavouriteTag :: string where
  "FavouriteTag = ''m.favourite''"

definition LowPriorityTag :: string where
  "LowPriorityTag = ''m.lowpriority''"

definition DefaultTagsOrder :: "string list" where
  "DefaultTagsOrder = [FavouriteTag, ''u.*'', DirectChat, Untagged, LowPriorityTag]"

text \<open>\<^verbatim>\<open>initTagsOrder\<close>: the saved setting, or the default order when nothing is saved.\<close>

definition initTagsOrder :: "string list \<Rightarrow> string list" where
  "initTagsOrder savedOrder = (if savedOrder = [] then DefaultTagsOrder else savedOrder)"

text \<open>\<^verbatim>\<open>QString::lastIndexOf(QChar, int from)\<close>: a negative \<open>from\<close> counts from the end,
  a start outside the string gives \<open>-1\<close>, otherwise the string is scanned backwards.\<close>

fun scan_back :: "string \<Rightarrow> char \<Rightarrow> nat \<Rightarrow> int" where
  "scan_back s c 0 = (if s ! 0 = c then 0 else -1)"
| "scan_back s c (Suc n) = (if s ! Suc n = c then int (Suc n) else scan_back s c n)"

definition lastIndexOf :: "string \<Rightarrow> char \<Rightarrow> int \<Rightarrow> int" where
  "lastIndexOf s c from =
     (let len = int (length s);
          from' = (if from < 0 then from + len else from)
      in if from' < 0 \<or> len \<le> from' then -1 else scan_back s c (nat from'))"

text \<open>\<^verbatim>\<open>QString::left(n)\<close>: the whole string when \<open>n\<close> is negative or not below the size.\<close>

definition left :: "string \<Rightarrow> int \<Rightarrow> string" where
  "left s n = (if n < 0 \<or> int (length s) \<le> n then s else take (nat n) s)"

definition startsWith :: "string \<Rightarrow> string \<Rightarrow> bool" where
  "startsWith s p = (take (length p) s = p)"

subsection \<open>The group comparator\<close>

text \<open>\<^verbatim>\<open>findIndex\<close>: the position of the first occurrence (\<^verbatim>\<open>std::find\<close>), the size of the
  list when there is none.\<close>

fun findIndex :: "'a list \<Rightarrow> 'a \<Rightarrow> nat" where
  "findIndex [] v = 0"
| "findIndex (x # xs) v = (if x = v then 0 else Suc (findIndex xs v))"

text \<open>
  The \<^verbatim>\<open>for\<close> loop of \<^verbatim>\<open>findIndexWithWildcards\<close>, with its two variables \<open>i\<close> and
  \<open>dotPos\<close>. The condition first tests \<open>i\<close>; only then it decrements \<open>dotPos\<close> and
  searches the next dot to the left. The loop may run forever, so it is a partial function
  and \<open>None\<close> stands for a loop that does not end.
\<close>

partial_function (option) wildcards_loop :: "string list \<Rightarrow> string \<Rightarrow> nat \<Rightarrow> int \<Rightarrow> nat option" where
  "wildcards_loop list val i dotPos =
     (if i = length list then
        (let dotPos' = lastIndexOf val CHR ''.'' (dotPos - 1)
         in if dotPos' \<noteq> -1
            then wildcards_loop list val (findIndex list (left val (dotPos' + 1) @ ''*'')) dotPos'
            else Some i)
      else Some i)"

declare wildcards_loop.simps [code]

definition findIndexWithWildcards :: "string list \<Rightarrow> string \<Rightarrow> nat option" where
  "findIndexWithWildcards list val =
     (if list = [] \<or> val = [] then Some (length list)
      else wildcards_loop list val (findIndex list val) 0)"

record RoomGroup =
  caption :: string
  rooms :: "nat list"

text \<open>\<^verbatim>\<open>groupLessThan\<close> of \<^verbatim>\<open>setOrder\<close>; \<open>tagsOrder\<close> is its static variable, initialised by
  \<^verbatim>\<open>initTagsOrder\<close>.\<close>

definition groupLessThan :: "string list \<Rightarrow> RoomGroup \<Rightarrow> string \<Rightarrow> bool option" where
  "groupLessThan tagsOrder grp tag =
     do {
       li \<leftarrow> findIndexWithWildcards tagsOrder (caption grp);
       ri \<leftarrow> findIndexWithWildcards tagsOrder tag;
       Some (li < ri \<or> (li = ri \<and> caption grp < tag))
     }"

subsection \<open>Rooms and connections: the objects of the client library\<close>

text \<open>
  A room is a \<^verbatim>\<open>QuaternionRoom*\<close>, a connection a \<^verbatim>\<open>Connection*\<close>: addresses, compared as
  such, with \<open>0\<close> for \<^verbatim>\<open>nullptr\<close>. What the model reads through a room pointer is its
  \<open>RoomData\<close>: the room id, the tags (a hash map from tag name to \<^verbatim>\<open>TagRecord\<close>, here the
  list of its entries in iteration order, each key once), the direct chat flag and the
  owning connection.
  A \<^verbatim>\<open>TagRecord\<close> holds one \<^verbatim>\<open>Omittable<float>\<close>, the order: \<open>None\<close> when omitted,
  otherwise a finite number (a rational here; JSON has no NaN).
\<close>

type_synonym room = nat
type_synonym connection = nat

definition nullptr :: nat where
  "nullptr = 0"

record RoomData =
  room_id :: string
  tags :: "(string \<times> rat option) list"
  isDirectChat :: bool
  connection :: connection

text \<open>
  The environment of the model: the rooms' data, the room map of every connection, the
  static \<open>tagsOrder\<close> of the group comparator, and the default value of the \<open>notify\<close>
  parameter of \<^verbatim>\<open>insertRoom\<close> (declared in the header of the class).
\<close>

record env =
  roomData :: "room \<Rightarrow> RoomData"
  roomMap :: "connection \<Rightarrow> room list"
  tagsOrder :: "string list"
  notifyDefault :: bool

text \<open>\<^verbatim>\<open>r->tag(tag).order\<close>: a missing tag gives a default record, whose order is omitted.\<close>

definition tag_order :: "RoomData \<Rightarrow> string \<Rightarrow> rat option" where
  "tag_order d t = (case map_of (tags d) t of None \<Rightarrow> None | Some ord \<Rightarrow> ord)"

text \<open>The comparator that \<^verbatim>\<open>roomLessThanFactory\<close> of \<^verbatim>\<open>setOrder\<close> returns for a tag.\<close>

definition roomLessThanFactory :: "(room \<Rightarrow> RoomData) \<Rightarrow> string \<Rightarrow> room \<Rightarrow> room \<Rightarrow> bool" where
  "roomLessThanFactory h tag r1 r2 =
     (if r1 = r2 then False
      else case (tag_order (h r1) tag, tag_order (h r2) tag) of
          (o1, None) \<Rightarrow> o1 \<noteq> None \<or> room_id (h r1) < room_id (h r2)
        | (None, Some v2) \<Rightarrow> False
        | (Some v1, Some v2) \<Rightarrow>
            if v1 < v2 then True
            else if v1 > v2 \<or> room_id (h r1) = room_id (h r2) then False
            else room_id (h r1) < room_id (h r2))"

text \<open>\<^verbatim>\<open>groups\<close> of \<^verbatim>\<open>setOrder\<close>: the groups under which the order lists a room.\<close>

definition groups :: "(room \<Rightarrow> RoomData) \<Rightarrow> room \<Rightarrow> string list" where
  "groups h r =
     (let vl = map fst (tags (h r));
          vl = (if isDirectChat (h r) then vl @ [DirectChat] else vl)
      in if vl = [] then [Untagged] else vl)"

subsection \<open>\<^verbatim>\<open>std::lower_bound\<close>\<close>

text \<open>
  The bisection of the standard library: \<open>first\<close> and \<open>len\<close> delimit the range still
  searched, and the element in the middle is compared with the value. The comparator may
  fail to return; so may the search.
\<close>

function lower_bound_loop :: "('a \<Rightarrow> bool option) \<Rightarrow> 'a list \<Rightarrow> nat \<Rightarrow> nat \<Rightarrow> nat option" where
  "lower_bound_loop cmp xs first len =
     (if 0 < len then
        (let half = len div 2; middle = first + half
         in case cmp (xs ! middle) of
              None \<Rightarrow> None
            | Some True \<Rightarrow> lower_bound_loop cmp xs (middle + 1) (len - half - 1)
            | Some False \<Rightarrow> lower_bound_loop cmp xs first half)
      else Some first)"
  by pat_completeness auto
termination
  by (relation "measure (\<lambda>(cmp, xs, first, len). len)") auto

declare lower_bound_loop.simps [simp del]

definition lower_bound :: "('a \<Rightarrow> bool option) \<Rightarrow> 'a list \<Rightarrow> nat option" where
  "lower_bound cmp xs = lower_bound_loop cmp xs 0 (length xs)"

text \<open>Insertion before a position and removal of a position
  (\<^verbatim>\<open>QVector::insert\<close>, \<^verbatim>\<open>QVector::erase\<close>, \<^verbatim>\<open>QVector::remove\<close>).\<close>

definition insert_at :: "nat \<Rightarrow> 'a \<Rightarrow> 'a list \<Rightarrow> 'a list" where
  "insert_at n x xs = take n xs @ x # drop n xs"

definition erase_at :: "nat \<Rightarrow> 'a list \<Rightarrow> 'a list" where
  "erase_at n xs = take n xs @ drop (Suc n) xs"

subsection \<open>Model indices\<close>

text \<open>
  A \<^verbatim>\<open>QModelIndex\<close> has a row, a column, an internal id (a \<^verbatim>\<open>quintptr\<close>, 64 bits) and a
  pointer to its model: \<open>model\<close> is \<open>True\<close> for an index that \<^verbatim>\<open>createIndex\<close> of this model
  made and \<open>False\<close> for the null pointer of a default-constructed index.
\<close>

record QModelIndex =
  row :: int
  column :: int
  internalId :: "64 word"
  model :: bool

definition invalidIndex :: QModelIndex where
  "invalidIndex = \<lparr>row = -1, column = -1, internalId = 0, model = False\<rparr>"

definition isValid :: "QModelIndex \<Rightarrow> bool" where
  "isValid i = (0 \<le> row i \<and> 0 \<le> column i \<and> model i)"

definition createIndex :: "int \<Rightarrow> int \<Rightarrow> 64 word \<Rightarrow> QModelIndex" where
  "createIndex r c i = \<lparr>row = r, column = c, internalId = i, model = True\<rparr>"

text \<open>The calls of the notification functions of \<^verbatim>\<open>QAbstractItemModel\<close> and the
  signals of the class; the model records them in \<open>emitted\<close>, in the order in which
  it makes them.\<close>

datatype signal =
    BeginResetModel
  | EndResetModel
  | BeginInsertRows QModelIndex int int
  | EndInsertRows
  | BeginRemoveRows QModelIndex int int
  | EndRemoveRows
  | BeginMoveRows QModelIndex int int QModelIndex int
  | EndMoveRows
  | GroupAdded int
  | DataChanged QModelIndex QModelIndex

record RoomListModel =
  m_connections :: "connection list"
  m_roomGroups :: "RoomGroup list"
  m_roomIdxCache :: "QModelIndex list"
  emitted :: "signal list"

definition emit :: "signal \<Rightarrow> RoomListModel \<Rightarrow> RoomListModel" where
  "emit sg m = m\<lparr>emitted := emitted m @ [sg]\<rparr>"

text \<open>The model as the constructor leaves it.\<close>

definition initial :: RoomListModel where
  "initial = \<lparr>m_connections = [], m_roomGroups = [], m_roomIdxCache = [], emitted = []\<rparr>"

text \<open>
  \<^verbatim>\<open>index\<close> calls \<^verbatim>\<open>hasIndex\<close>, which calls \<^verbatim>\<open>rowCount\<close>, which calls
  \<^verbatim>\<open>isValidGroupIndex\<close>, which calls \<^verbatim>\<open>parent\<close>, which calls \<^verbatim>\<open>index\<close> again, now
  with the default parent \<^verbatim>\<open>QModelIndex()\<close>, where \<^verbatim>\<open>rowCount\<close> is the number of groups.
  \<open>index_root\<close> is that last call, written out; \<open>index_root_eq\<close> below shows that it is
  \<open>index\<close> at the invalid parent.
\<close>

definition index_root :: "RoomListModel \<Rightarrow> int \<Rightarrow> int \<Rightarrow> QModelIndex" where
  "index_root m r c =
     (if r < 0 \<or> c < 0 \<or> \<not> (r < int (length (m_roomGroups m)) \<and> c < 1) then invalidIndex
      else createIndex r c (word_of_int (- 1)))"

definition parent :: "RoomListModel \<Rightarrow> QModelIndex \<Rightarrow> QModelIndex" where
  "parent m child =
     (let parentPos = sint (ucast (internalId child) :: 32 word)
      in if isValid child \<and> parentPos \<noteq> - 1 then index_root m parentPos 0 else invalidIndex)"

definition isValidGroupIndex :: "RoomListModel \<Rightarrow> QModelIndex \<Rightarrow> bool" where
  "isValidGroupIndex m i =
     (isValid i \<and> \<not> isValid (parent m i) \<and> row i < int (length (m_roomGroups m)))"

definition isValidRoomIndex :: "RoomListModel \<Rightarrow> QModelIndex \<Rightarrow> bool" where
  "isValidRoomIndex m i =
     (isValid i \<and> isValidGroupIndex m (parent m i) \<and>
      row i < int (length (rooms (m_roomGroups m ! nat (row (parent m i))))))"

definition rowCount :: "RoomListModel \<Rightarrow> QModelIndex \<Rightarrow> int" where
  "rowCount m p =
     (if \<not> isValid p then int (length (m_roomGroups m))
      else if isValidGroupIndex m p then int (length (rooms (m_roomGroups m ! nat (row p))))
      else 0)"

definition columnCount :: "QModelIndex \<Rightarrow> int" where
  "columnCount p = 1"

text \<open>\<^verbatim>\<open>QAbstractItemModel::hasIndex\<close>, as the toolkit defines it.\<close>

definition hasIndex :: "RoomListModel \<Rightarrow> int \<Rightarrow> int \<Rightarrow> QModelIndex \<Rightarrow> bool" where
  "hasIndex m r c p =
     (if r < 0 \<or> c < 0 then False else r < rowCount m p \<and> c < columnCount p)"

definition index :: "RoomListModel \<Rightarrow> int \<Rightarrow> int \<Rightarrow> QModelIndex \<Rightarrow> QModelIndex" where
  "index m r c p =
     (if \<not> hasIndex m r c p then invalidIndex
      else createIndex r c (word_of_int (if isValid p then row p else - 1)))"

subsection \<open>Looking rooms up\<close>

definition lowerBoundGroup :: "env \<Rightarrow> RoomListModel \<Rightarrow> string \<Rightarrow> nat option" where
  "lowerBoundGroup e m cap =
     lower_bound (\<lambda>g. groupLessThan (tagsOrder e) g cap) (m_roomGroups m)"

definition lowerBoundRoom :: "env \<Rightarrow> RoomGroup \<Rightarrow> room \<Rightarrow> nat option" where
  "lowerBoundRoom e grp r =
     lower_bound (\<lambda>x. Some (roomLessThanFactory (roomData e) (caption grp) x r)) (rooms grp)"

definition indexOf :: "env \<Rightarrow> RoomListModel \<Rightarrow> string \<Rightarrow> room \<Rightarrow> QModelIndex option" where
  "indexOf e m cap r =
     do {
       gPos \<leftarrow> lowerBoundGroup e m cap;
       if gPos = length (m_roomGroups m) \<or> caption (m_roomGroups m ! gPos) \<noteq> cap
       then Some invalidIndex
       else
         let groupIdx = index m (int gPos) 0 invalidIndex
         in if r = nullptr then Some groupIdx
            else do {
              rPos \<leftarrow> lowerBoundRoom e (m_roomGroups m ! gPos) r;
              if rPos = length (rooms (m_roomGroups m ! gPos)) \<or>
                 rooms (m_roomGroups m ! gPos) ! rPos \<noteq> r
              then Some invalidIndex
              else Some (index m (int rPos) 0 groupIdx)
            }
     }"

text \<open>\<^verbatim>\<open>visitRoom\<close>: the groups of the room are taken once, each index is looked up in
  the model as the visitor left it.\<close>

fun visitRoom_loop ::
  "env \<Rightarrow> (QModelIndex \<Rightarrow> RoomListModel \<Rightarrow> RoomListModel) \<Rightarrow> room \<Rightarrow> string list \<Rightarrow>
   RoomListModel \<Rightarrow> RoomListModel option" where
  "visitRoom_loop e visitor r [] m = Some m"
| "visitRoom_loop e visitor r (g # gs) m =
     do {
       idx \<leftarrow> indexOf e m g r;
       if \<not> isValidGroupIndex m (parent m idx) then visitRoom_loop e visitor r gs m
       else if \<not> isValidRoomIndex m idx then visitRoom_loop e visitor r gs m
       else visitRoom_loop e visitor r gs (visitor idx m)
     }"

definition visitRoom ::
  "env \<Rightarrow> room \<Rightarrow> (QModelIndex \<Rightarrow> RoomListModel \<Rightarrow> RoomListModel) \<Rightarrow>
   RoomListModel \<Rightarrow> RoomListModel option" where
  "visitRoom e r visitor m = visitRoom_loop e visitor r (groups (roomData e) r) m"

subsection \<open>Removing and inserting rooms\<close>

definition doRemoveRoom :: "QModelIndex \<Rightarrow> RoomListModel \<Rightarrow> RoomListModel" where
  "doRemoveRoom idx m =
     (if \<not> isValidRoomIndex m idx then m
      else
        let gPos = nat (row (parent m idx));
            grp = m_roomGroups m ! gPos;
            m1 = emit (BeginRemoveRows (parent m idx) (row idx) (row idx)) m;
            grp' = grp\<lparr>rooms := erase_at (nat (row idx)) (rooms grp)\<rparr>;
            m2 = m1\<lparr>m_roomGroups := (m_roomGroups m1)[gPos := grp']\<rparr>;
            m3 = emit EndRemoveRows m2
        in if rooms grp' = [] then
             let m4 = emit (BeginRemoveRows invalidIndex (int gPos) (int gPos)) m3;
                 m5 = m4\<lparr>m_roomGroups := erase_at gPos (m_roomGroups m4)\<rparr>
             in emit EndRemoveRows m5
           else m3)"

definition deleteRoom :: "env \<Rightarrow> room \<Rightarrow> RoomListModel \<Rightarrow> RoomListModel option" where
  "deleteRoom e r m = visitRoom e r doRemoveRoom m"

text \<open>\<^verbatim>\<open>tryInsertGroup\<close> returns the position of the group with the caption, which it
  inserts first when there is none.\<close>

definition tryInsertGroup ::
  "env \<Rightarrow> string \<Rightarrow> bool \<Rightarrow> RoomListModel \<Rightarrow> (nat \<times> RoomListModel) option" where
  "tryInsertGroup e cap notify m =
     do {
       gPos \<leftarrow> lowerBoundGroup e m cap;
       if gPos = length (m_roomGroups m) \<or> caption (m_roomGroups m ! gPos) \<noteq> cap
       then
         let m1 = (if notify then emit (BeginInsertRows invalidIndex (int gPos) (int gPos)) m else m);
             m2 = m1\<lparr>m_roomGroups :=
                      insert_at gPos \<lparr>caption = cap, rooms = []\<rparr> (m_roomGroups m1)\<rparr>;
             m3 = (if notify then emit (GroupAdded (int gPos)) (emit EndInsertRows m2) else m2)
         in Some (gPos, m3)
       else Some (gPos, m)
     }"

fun insertRoomToGroups ::
  "env \<Rightarrow> string list \<Rightarrow> room \<Rightarrow> bool \<Rightarrow> RoomListModel \<Rightarrow> RoomListModel option" where
  "insertRoomToGroups e [] r notify m = Some m"
| "insertRoomToGroups e (g # gs) r notify m =
     do {
       (gPos, m1) \<leftarrow> tryInsertGroup e g notify m;
       rPos \<leftarrow> lowerBoundRoom e (m_roomGroups m1 ! gPos) r;
       if rPos \<noteq> length (rooms (m_roomGroups m1 ! gPos)) \<and>
          rooms (m_roomGroups m1 ! gPos) ! rPos = r
       then insertRoomToGroups e gs r notify m1
       else
         let grp = m_roomGroups m1 ! gPos;
             m2 = (if notify
                   then emit (BeginInsertRows (index m1 (int gPos) 0 invalidIndex) (int rPos) (int rPos)) m1
                   else m1);
             m3 = m2\<lparr>m_roomGroups :=
                      (m_roomGroups m2)[gPos := grp\<lparr>rooms := insert_at rPos r (rooms grp)\<rparr>]\<rparr>;
             m4 = (if notify then emit EndInsertRows m3 else m3)
         in insertRoomToGroups e gs r notify m4
     }"

definition insertRoom :: "env \<Rightarrow> room \<Rightarrow> bool \<Rightarrow> RoomListModel \<Rightarrow> RoomListModel option" where
  "insertRoom e r notify m =
     (if r \<noteq> nullptr then insertRoomToGroups e (groups (roomData e) r) r notify m else Some m)"

fun insertRooms :: "env \<Rightarrow> room list \<Rightarrow> RoomListModel \<Rightarrow> RoomListModel option" where
  "insertRooms e [] m = Some m"
| "insertRooms e (r # rs) m =
     do { m1 \<leftarrow> insertRoom e r (notifyDefault e) m; insertRooms e rs m1 }"

text \<open>\<^verbatim>\<open>doRebuild\<close>: every room of every connection, into an emptied model.\<close>

definition doRebuild :: "env \<Rightarrow> RoomListModel \<Rightarrow> RoomListModel option" where
  "doRebuild e m =
     insertRooms e (concat (map (roomMap e) (m_connections m))) (m\<lparr>m_roomGroups := []\<rparr>)"

subsection \<open>Connections\<close>

definition addConnection :: "env \<Rightarrow> connection \<Rightarrow> RoomListModel \<Rightarrow> RoomListModel option" where
  "addConnection e c m =
     do {
       let m1 = emit BeginResetModel m;
       let m2 = m1\<lparr>m_connections := m_connections m1 @ [c]\<rparr>;
       m3 \<leftarrow> insertRooms e (roomMap e c) m2;
       Some (emit EndResetModel m3)
     }"

definition deleteConnection :: "env \<Rightarrow> connection \<Rightarrow> RoomListModel \<Rightarrow> RoomListModel" where
  "deleteConnection e c m =
     (if c \<notin> set (m_connections m) then m
      else
        let m1 = emit BeginResetModel m;
            gs1 = map (\<lambda>g. g\<lparr>rooms := filter (\<lambda>r. connection (roomData e r) \<noteq> c) (rooms g)\<rparr>)
                    (m_roomGroups m1);
            gs2 = filter (\<lambda>g. rooms g \<noteq> []) gs1;
            m2 = m1\<lparr>m_roomGroups := gs2, m_connections := remove1 c (m_connections m1)\<rparr>
        in emit EndResetModel m2)"

subsection \<open>Tag changes\<close>

text \<open>\<^verbatim>\<open>prepareToUpdateGroups\<close>, the slot of \<^verbatim>\<open>tagsAboutToChange\<close>: the index of the room in
  each of its groups goes to the cache.\<close>

fun prepareToUpdateGroups_loop ::
  "env \<Rightarrow> room \<Rightarrow> string list \<Rightarrow> RoomListModel \<Rightarrow> RoomListModel option" where
  "prepareToUpdateGroups_loop e r [] m = Some m"
| "prepareToUpdateGroups_loop e r (g # gs) m =
     do {
       rIdx \<leftarrow> indexOf e m g r;
       prepareToUpdateGroups_loop e r gs (m\<lparr>m_roomIdxCache := m_roomIdxCache m @ [rIdx]\<rparr>)
     }"

definition prepareToUpdateGroups :: "env \<Rightarrow> room \<Rightarrow> RoomListModel \<Rightarrow> RoomListModel option" where
  "prepareToUpdateGroups e r m = prepareToUpdateGroups_loop e r (groups (roomData e) r) m"

text \<open>
  The loop of \<^verbatim>\<open>updateGroups\<close> over the cached indices; \<open>gs\<close> is the local list
  \<^verbatim>\<open>groups\<close>, from which \<^verbatim>\<open>removeOne\<close> takes the captions met. \<^verbatim>\<open>std::move(oldIt, oldIt + 1,
  newIt)\<close> is the algorithm on ranges: it assigns the one element at \<open>oldIt\<close> to the
  position \<open>newIt\<close>. Reading or writing outside the vector is undefined.
\<close>

fun updateGroups_loop ::
  "env \<Rightarrow> room \<Rightarrow> QModelIndex list \<Rightarrow> string list \<Rightarrow> RoomListModel \<Rightarrow>
   (string list \<times> RoomListModel) option" where
  "updateGroups_loop e r [] gs m = Some (gs, m)"
| "updateGroups_loop e r (oldIndex # rest) gs m =
     (let gIdx = parent m oldIndex
      in if row gIdx < 0 \<or> int (length (m_roomGroups m)) \<le> row gIdx then None
         else
           let gPos = nat (row gIdx); grp = m_roomGroups m ! gPos
           in if caption grp \<in> set gs then
                do {
                  newPos \<leftarrow> lowerBoundRoom e grp r;
                  if int newPos = row oldIndex
                  then updateGroups_loop e r rest (remove1 (caption grp) gs) m
                  else if 0 \<le> row oldIndex \<and> row oldIndex < int (length (rooms grp)) \<and>
                          newPos < length (rooms grp)
                  then
                    let m1 = emit (BeginMoveRows gIdx (row oldIndex) (row oldIndex) gIdx (int newPos)) m;
                        grp' = grp\<lparr>rooms := (rooms grp)[newPos := rooms grp ! nat (row oldIndex)]\<rparr>;
                        m2 = m1\<lparr>m_roomGroups := (m_roomGroups m1)[gPos := grp']\<rparr>;
                        m3 = emit EndMoveRows m2
                    in updateGroups_loop e r rest (remove1 (caption grp) gs) m3
                  else None
                }
              else updateGroups_loop e r rest gs (doRemoveRoom oldIndex m))"

definition updateGroups :: "env \<Rightarrow> room \<Rightarrow> RoomListModel \<Rightarrow> RoomListModel option" where
  "updateGroups e r m =
     do {
       (gs, m1) \<leftarrow> updateGroups_loop e r (m_roomIdxCache m) (groups (roomData e) r) m;
       insertRoomToGroups e gs r True (m1\<lparr>m_roomIdxCache := []\<rparr>)
     }"

text \<open>
  A change of the tags of a room, as the client library performs it (\<^verbatim>\<open>Room::setTags\<close>,
  \<^verbatim>\<open>Room::removeTag\<close>): the room emits \<^verbatim>\<open>tagsAboutToChange\<close>, replaces its tags and emits
  \<^verbatim>\<open>tagsChanged\<close>; \<^verbatim>\<open>setOrder\<close> connects the two signals to \<^verbatim>\<open>prepareToUpdateGroups\<close>
  and \<^verbatim>\<open>updateGroups\<close>.
\<close>

definition setTags ::
  "room \<Rightarrow> (string \<times> rat option) list \<Rightarrow> env \<times> RoomListModel \<Rightarrow> (env \<times> RoomListModel) option" where
  "setTags r newTags = (\<lambda>(e, m).
     do {
       m1 \<leftarrow> prepareToUpdateGroups e r m;
       let e' = e\<lparr>roomData := (roomData e)(r := (roomData e r)\<lparr>tags := newTags\<rparr>)\<rparr>;
       m2 \<leftarrow> updateGroups e' r m1;
       Some (e', m2)
     })"

definition removeTag :: "room \<Rightarrow> string \<Rightarrow> env \<times> RoomListModel \<Rightarrow> (env \<times> RoomListModel) option" where
  "removeTag r tag = (\<lambda>(e, m).
     if tag \<in> fst ` set (tags (roomData e r))
     then setTags r (filter (\<lambda>kv. fst kv \<noteq> tag) (tags (roomData e r))) (e, m)
     else Some (e, m))"

text \<open>\<^verbatim>\<open>Connection::roomsWithTag\<close>.\<close>

definition roomsWithTag :: "env \<Rightarrow> connection \<Rightarrow> string \<Rightarrow> room list" where
  "roomsWithTag e c tag = filter (\<lambda>r. tag \<in> fst ` set (tags (roomData e r))) (roomMap e c)"

fun removeTag_rooms ::
  "string \<Rightarrow> room list \<Rightarrow> env \<times> RoomListModel \<Rightarrow> (env \<times> RoomListModel) option" where
  "removeTag_rooms tag [] em = Some em"
| "removeTag_rooms tag (r # rs) em = do { em1 \<leftarrow> removeTag r tag em; removeTag_rooms tag rs em1 }"

fun deleteTag_loop ::
  "string \<Rightarrow> connection list \<Rightarrow> env \<times> RoomListModel \<Rightarrow> (env \<times> RoomListModel) option" where
  "deleteTag_loop tag [] em = Some em"
| "deleteTag_loop tag (c # cs) em =
     do {
       em1 \<leftarrow> removeTag_rooms tag (roomsWithTag (fst em) c tag) em;
       deleteTag_loop tag cs em1
     }"

definition deleteTag :: "QModelIndex \<Rightarrow> env \<times> RoomListModel \<Rightarrow> (env \<times> RoomListModel) option" where
  "deleteTag idx = (\<lambda>(e, m).
     if \<not> isValidGroupIndex m idx then Some (e, m)
     else
       let tag = caption (m_roomGroups m ! nat (row idx))
       in if tag = [] then Some (e, m)
          else if startsWith tag ''org.qmatrixclient.'' then Some (e, m)
          else deleteTag_loop tag (m_connections m) (e, m))"

subsection \<open>Rebuilding and refreshing\<close>

definition refresh :: "env \<Rightarrow> room \<Rightarrow> RoomListModel \<Rightarrow> RoomListModel option" where
  "refresh e r m = visitRoom e r (\<lambda>idx. emit (DataChanged idx idx)) m"

definition replaceRoom :: "env \<Rightarrow> room \<Rightarrow> room \<Rightarrow> RoomListModel \<Rightarrow> RoomListModel option" where
  "replaceRoom e r prev m =
     (if prev = r then refresh e r m
      else do {
        m1 \<leftarrow> doRebuild e (emit BeginResetModel m);
        Some (emit EndResetModel m1)
      })"

definition setOrder :: "env \<Rightarrow> RoomListModel \<Rightarrow> RoomListModel option" where
  "setOrder e m =
     do {
       m1 \<leftarrow> doRebuild e (emit BeginResetModel m);
       Some (emit EndResetModel m1)
     }"

subsection \<open>The operations of the model, one after the other\<close>

datatype operation =
    AddConnection connection
  | DeleteConnection connection
  | DeleteTag QModelIndex
  | ReplaceRoom room room
  | DeleteRoom room
  | InsertRoom room bool
  | SetOrder
  | Refresh room
  | PrepareToUpdateGroups room
  | UpdateGroups room
  | TagsChange room "(string \<times> rat option) list"

fun perform :: "operation \<Rightarrow> env \<times> RoomListModel \<Rightarrow> (env \<times> RoomListModel) option" where
  "perform (AddConnection c) (e, m) = map_option (Pair e) (addConnection e c m)"
| "perform (DeleteConnection c) (e, m) = Some (e, deleteConnection e c m)"
| "perform (DeleteTag idx) (e, m) = deleteTag idx (e, m)"
| "perform (ReplaceRoom r prev) (e, m) = map_option (Pair e) (replaceRoom e r prev m)"
| "perform (DeleteRoom r) (e, m) = map_option (Pair e) (deleteRoom e r m)"
| "perform (InsertRoom r notify) (e, m) = map_option (Pair e) (insertRoom e r notify m)"
| "perform SetOrder (e, m) = map_option (Pair e) (setOrder e m)"
| "perform (Refresh r) (e, m) = map_option (Pair e) (refresh e r m)"
| "perform (PrepareToUpdateGroups r) (e, m) = map_option (Pair e) (prepareToUpdateGroups e r m)"
| "perform (UpdateGroups r) (e, m) = map_option (Pair e) (updateGroups e r m)"
| "perform (TagsChange r newTags) (e, m) = setTags r newTags (e, m)"

fun run :: "operation list \<Rightarrow> env \<times> RoomListModel \<Rightarrow> (env \<times> RoomListModel) option" where
  "run [] em = Some em"
| "run (x # xs) em = do { em1 \<leftarrow> perform x em; run xs em1 }"

subsection \<open>What the comparator and the bisection are meant to compute\<close>

text \<open>
  The wildcard entries that stand for a caption, from the rightmost dot to the leftmost:
  the prefix up to and with the dot, followed by a star.
\<close>

definition wildcards :: "string \<Rightarrow> string list" where
  "wildcards val =
     map (\<lambda>p. take (Suc p) val @ ''*'')
       (rev (filter (\<lambda>p. val ! p = CHR ''.'') [0..<length val]))"

text \<open>The index of a caption in the tags order: that of the caption itself or else of
  its first wildcard in the list; the size of the list when none is there.\<close>

definition tag_index :: "string list \<Rightarrow> string \<Rightarrow> nat" where
  "tag_index list val =
     (if val = [] then length list
      else case find (\<lambda>c. c \<in> set list) (val # wildcards val) of
             None \<Rightarrow> length list
           | Some c \<Rightarrow> findIndex list c)"

definition tag_less :: "string list \<Rightarrow> string \<Rightarrow> string \<Rightarrow> bool" where
  "tag_less list a b =
     (tag_index list a < tag_index list b \<or> (tag_index list a = tag_index list b \<and> a < b))"

text \<open>The captions on which the lookup ends: all but those with a leading dot that match
  no entry of a list that has entries.\<close>

definition looked_up :: "string list \<Rightarrow> string \<Rightarrow> bool" where
  "looked_up list val =
     (list = [] \<or> val = [] \<or> val ! 0 \<noteq> CHR ''.'' \<or>
      find (\<lambda>c. c \<in> set list) (val # wildcards val) \<noteq> None)"

text \<open>
  An auxiliary reading of the loop: the dots below position \<open>n\<close> are tried from right to
  left, until a wildcard is in the list (\<open>Found\<close>) or no dot is left (\<open>NotFound\<close>); after a
  dot at position 0 whose wildcard is not in the list, the loop starts over (\<open>Restart\<close>).
\<close>

datatype outcome = Found nat | NotFound | Restart

primrec scan_dots :: "string list \<Rightarrow> string \<Rightarrow> nat \<Rightarrow> outcome" where
  "scan_dots list val 0 = NotFound"
| "scan_dots list val (Suc n) =
     (if val ! n = CHR ''.'' then
        (if findIndex list (take (Suc n) val @ ''*'') < length list
         then Found (findIndex list (take (Suc n) val @ ''*''))
         else if n = 0 then Restart else scan_dots list val n)
      else scan_dots list val n)"

text \<open>A range is partitioned by a predicate when no element that satisfies it comes
  after one that does not: what \<^verbatim>\<open>std::lower_bound\<close> asks of its range.\<close>

definition partitioned :: "('a \<Rightarrow> bool) \<Rightarrow> 'a list \<Rightarrow> bool" where
  "partitioned p xs = (\<forall>i j. i \<le> j \<and> j < length xs \<and> p (xs ! j) \<longrightarrow> p (xs ! i))"

text \<open>A comparator that is asymmetric and whose complement is transitive: a strict weak
  order, which \<^verbatim>\<open>std::lower_bound\<close> and a sorted insertion need.\<close>

definition strict_weak :: "('a \<Rightarrow> 'a \<Rightarrow> bool) \<Rightarrow> bool" where
  "strict_weak lt =
     ((\<forall>a b. lt a b \<longrightarrow> \<not> lt b a) \<and> (\<forall>a b c. \<not> lt a b \<and> \<not> lt b c \<longrightarrow> \<not> lt a c))"

text \<open>The key by which the room comparator orders: rooms with an order before rooms
  without, then the order, then the room id.\<close>

definition omitted_rank :: "RoomData \<Rightarrow> string \<Rightarrow> nat" where
  "omitted_rank d t = (case tag_order d t of None \<Rightarrow> 1 | Some v \<Rightarrow> 0)"

definition order_value :: "RoomData \<Rightarrow> string \<Rightarrow> rat" where
  "order_value d t = (case tag_order d t of None \<Rightarrow> 0 | Some v \<Rightarrow> v)"

subsection \<open>Properties of a model\<close>

text \<open>No group of the model is empty.\<close>

definition no_empty_groups :: "RoomListModel \<Rightarrow> bool" where
  "no_empty_groups m = (\<forall>g \<in> set (m_roomGroups m). rooms g \<noteq> [])"

text \<open>The model lists a room under a caption: a group with the caption holds the room.\<close>

definition listed :: "RoomListModel \<Rightarrow> room \<Rightarrow> string \<Rightarrow> bool" where
  "listed m r cap = (\<exists>g \<in> set (m_roomGroups m). caption g = cap \<and> r \<in> set (rooms g))"

text \<open>
  A range is sorted with respect to a comparator when no element is less than an earlier
  one (\<^verbatim>\<open>std::is_sorted\<close>). For the groups the comparator takes a group and a caption.
\<close>

definition rooms_sorted :: "env \<Rightarrow> RoomGroup \<Rightarrow> bool" where
  "rooms_sorted e g =
     sorted_wrt (\<lambda>a b. \<not> roomLessThanFactory (roomData e) (caption g) b a) (rooms g)"

definition groups_sorted :: "env \<Rightarrow> RoomGroup list \<Rightarrow> bool" where
  "groups_sorted e gs =
     sorted_wrt (\<lambda>g1 g2. groupLessThan (tagsOrder e) g2 (caption g1) = Some False) gs"

definition model_sorted :: "env \<Rightarrow> RoomListModel \<Rightarrow> bool" where
  "model_sorted e m =
     (groups_sorted e (m_roomGroups m) \<and> list_all (rooms_sorted e) (m_roomGroups m))"

text \<open>The captions of the model, and the groups of every room, are captions on which
  the lookup of the group comparator ends.\<close>

definition captions_ok :: "env \<Rightarrow> RoomListModel \<Rightarrow> bool" where
  "captions_ok e m = (\<forall>g \<in> set (m_roomGroups m). looked_up (tagsOrder e) (caption g))"

definition tags_ok :: "env \<Rightarrow> bool" where
  "tags_ok e = (\<forall>r. \<forall>g \<in> set (groups (roomData e) r). looked_up (tagsOrder e) g)"

definition well_sorted :: "env \<Rightarrow> RoomListModel \<Rightarrow> bool" where
  "well_sorted e m = (model_sorted e m \<and> captions_ok e m)"

text \<open>
  What \<^verbatim>\<open>beginMoveRows(parent, src, src, parent, dst)\<close> announces to a view: the row
  \<open>src\<close> of the parent is taken out and put back before the row that had the number
  \<open>dst\<close>.
\<close>

definition moved_row :: "nat \<Rightarrow> nat \<Rightarrow> 'a list \<Rightarrow> 'a list" where
  "moved_row src dst xs =
     (if dst \<le> src then insert_at dst (xs ! src) (erase_at src xs)
      else insert_at (dst - 1) (xs ! src) (erase_at src xs))"

subsection \<open>Two small worlds\<close>

text \<open>
  One user with two accounts in the same room: connection 1 holds the room object 1,
  connection 2 the room object 2; both objects have the same room id and no tag.
\<close>

definition two_accounts :: env where
  "two_accounts =
     \<lparr>roomData = (\<lambda>r. \<lparr>room_id = ''!r:example.org'', tags = [], isDirectChat = False,
                          connection = r\<rparr>),
      roomMap = (\<lambda>c. if c = 1 then [1] else if c = 2 then [2] else []),
      tagsOrder = initTagsOrder [],
      notifyDefault = False\<rparr>"

text \<open>
  One connection with the rooms 1, 2 and 3, each under the tag \<open>u.work\<close>, with the
  orders 0.1, 0.2 and 0.3.
\<close>

definition three_rooms :: env where
  "three_rooms =
     \<lparr>roomData = (\<lambda>r. \<lparr>room_id = (if r = 1 then ''!a:example.org''
                                     else if r = 2 then ''!b:example.org''
                                     else ''!c:example.org''),
                          tags = [(''u.work'', Some (rat_of_nat r / 10))],
                          isDirectChat = False, connection = 1\<rparr>),
      roomMap = (\<lambda>c. if c = 1 then [1, 2, 3] else []),
      tagsOrder = initTagsOrder [],
      notifyDefault = False\<rparr>"

text \<open>The model of \<open>three_rooms\<close> once its connection is added, written out.\<close>

definition work_model :: RoomListModel where
  "work_model =
     \<lparr>m_connections = [1],
      m_roomGroups = [\<lparr>caption = ''u.work'', rooms = [1, 2, 3]\<rparr>],
      m_roomIdxCache = [],
      emitted = [BeginResetModel, EndResetModel]\<rparr>"

text \<open>The model of \<open>two_accounts\<close> once both connections are added, written out.\<close>

definition accounts_model :: RoomListModel where
  "accounts_model =
     \<lparr>m_connections = [1, 2],
      m_roomGroups = [\<lparr>caption = Untagged, rooms = [2, 1]\<rparr>],
      m_roomIdxCache = [],
      emitted = [BeginResetModel, EndResetModel, BeginResetModel, EndResetModel]\<rparr>"

section \<open>Lemmas\<close>

subsection \<open>Strings and the wildcard loop\<close>

lemma scan_back_bounds: "- 1 \<le> scan_back s c n \<and> scan_back s c n \<le> int n"
  by (induction n) auto

lemma scan_back_hit: "s ! 0 = c \<Longrightarrow> 0 \<le> scan_back s c n"
  by (induction n) auto

text \<open>With the character at position 0, a search that starts anywhere in the string
  succeeds; and the start \<open>d - 1\<close> is in the string for \<open>d = 0\<close> too, where it is the
  last position.\<close>

lemma lastIndexOf_leading:
  assumes "s ! 0 = c" "0 \<le> d" "d < int (length s)"
  shows "0 \<le> lastIndexOf s c (d - 1) \<and> lastIndexOf s c (d - 1) < int (length s)"
proof -
  define k where "k = (if d = 0 then length s - 1 else nat (d - 1))"
  have k: "int k < int (length s)"
    using assms by (auto simp: k_def)
  have "lastIndexOf s c (d - 1) = scan_back s c k"
    using assms by (auto simp: lastIndexOf_def k_def nat_diff_distrib')
  moreover have "scan_back s c k \<le> int k"
    using scan_back_bounds by blast
  moreover have "0 \<le> scan_back s c k"
    using assms(1) by (rule scan_back_hit)
  ultimately show ?thesis using k by linarith
qed

lemma findIndex_absent: "v \<notin> set xs \<Longrightarrow> findIndex xs v = length xs"
  by (induction xs) auto

lemma findIndex_le: "findIndex xs v \<le> length xs"
  by (induction xs) auto

lemma findIndex_present: "v \<in> set xs \<Longrightarrow> findIndex xs v < length xs \<and> xs ! findIndex xs v = v"
  by (induction xs) auto

lemma scan_back_miss:
  "scan_back s c n = - 1 \<longleftrightarrow> (\<forall>k \<le> n. s ! k \<noteq> c)"
proof (induction n)
  case 0
  then show ?case by simp
next
  case (Suc n)
  then show ?case by (auto simp: le_Suc_eq)
qed

lemma scan_back_found:
  "0 \<le> scan_back s c n \<Longrightarrow> s ! nat (scan_back s c n) = c \<and> nat (scan_back s c n) \<le> n \<and>
     (\<forall>k. nat (scan_back s c n) < k \<and> k \<le> n \<longrightarrow> s ! k \<noteq> c)"
proof (induction n)
  case 0
  then show ?case by (auto split: if_splits)
next
  case (Suc n)
  have [simp]: "nat (1 + int n) = Suc n" by simp
  from Suc show ?case by (auto simp: le_Suc_eq split: if_splits)
qed

lemma left_take: "0 \<le> k \<Longrightarrow> nat k < length s \<Longrightarrow> left s (k + 1) = take (Suc (nat k)) s"
  by (auto simp: left_def nat_add_distrib take_all)

lemma scan_dots_skip:
  assumes "\<forall>k. p < k \<and> k < n \<longrightarrow> val ! k \<noteq> CHR ''.''" "p < n"
  shows "scan_dots list val n = scan_dots list val (Suc p)"
  using assms
proof (induction n)
  case 0
  then show ?case by simp
next
  case (Suc n)
  show ?case
  proof (cases "p = n")
    case True
    then show ?thesis by simp
  next
    case False
    with Suc.prems have "p < n" by simp
    moreover from Suc.prems \<open>p < n\<close> have "val ! n \<noteq> CHR ''.''" by simp
    moreover from Suc.prems have "\<forall>k. p < k \<and> k < n \<longrightarrow> val ! k \<noteq> CHR ''.''" by simp
    ultimately show ?thesis using Suc.IH by simp
  qed
qed

lemma scan_dots_none:
  assumes "\<forall>k < n. val ! k \<noteq> CHR ''.''"
  shows "scan_dots list val n = NotFound"
  using assms by (induction n) simp_all

text \<open>One stretch of the loop, for a search that covers the positions below \<open>n\<close>.\<close>

lemma wildcards_loop_scan:
  assumes n: "0 < n" "n \<le> length val"
    and start: "lastIndexOf val CHR ''.'' (d - 1) = scan_back val CHR ''.'' (n - 1)"
  shows "wildcards_loop list val (length list) d =
     (case scan_dots list val n of
        Found i \<Rightarrow> Some i
      | NotFound \<Rightarrow> Some (length list)
      | Restart \<Rightarrow> wildcards_loop list val (length list) 0)"
  using n start
proof (induction n arbitrary: d rule: less_induct)
  case (less n)
  define r where "r = scan_back val CHR ''.'' (n - 1)"
  have lr: "lastIndexOf val CHR ''.'' (d - 1) = r"
    using less.prems(3) by (simp add: r_def)
  show ?case
  proof (cases "r = - 1")
    case True
    then have "\<forall>k \<le> n - 1. val ! k \<noteq> CHR ''.''"
      unfolding r_def scan_back_miss .
    then have "\<forall>k < n. val ! k \<noteq> CHR ''.''"
      using less.prems(1) by auto
    then have "scan_dots list val n = NotFound" by (rule scan_dots_none)
    with True lr show ?thesis
      by (subst wildcards_loop.simps) simp
  next
    case False
    with scan_back_bounds [of val "CHR ''.''" "n - 1"] have r0: "0 \<le> r"
      unfolding r_def by linarith
    define p where "p = nat r"
    from scan_back_found [of val "CHR ''.''" "n - 1"] r0
    have dot: "val ! p = CHR ''.''" and pn: "p < n"
      and skip: "\<forall>k. p < k \<and> k < n \<longrightarrow> val ! k \<noteq> CHR ''.''"
      using less.prems(1) unfolding r_def p_def by auto
    have rp: "r = int p" using r0 by (simp add: p_def)
    have sd: "scan_dots list val n = scan_dots list val (Suc p)"
      using skip pn by (rule scan_dots_skip)
    have lt: "left val (r + 1) = take (Suc p) val"
      using left_take [of r val] r0 pn less.prems(2) by (simp add: p_def)
    define i where "i = findIndex list (take (Suc p) val @ ''*'')"
    have step: "wildcards_loop list val (length list) d = wildcards_loop list val i r"
      using False
      by (subst wildcards_loop.simps) (simp add: lr lt i_def Let_def)
    show ?thesis
    proof (cases "i < length list")
      case True
      then have "wildcards_loop list val i r = Some i"
        by (subst wildcards_loop.simps) simp
      with step sd dot True show ?thesis by (simp add: i_def)
    next
      case nf: False
      with findIndex_le [of list "take (Suc p) val @ ''*''"] have il: "i = length list"
        by (simp add: i_def)
      show ?thesis
      proof (cases "p = 0")
        case True
        with step sd dot nf il rp show ?thesis by (simp add: i_def)
      next
        case pz: False
        have "lastIndexOf val CHR ''.'' (r - 1) = scan_back val CHR ''.'' (p - 1)"
          using pz pn less.prems(2) rp by (simp add: lastIndexOf_def nat_diff_distrib')
        from less.IH [OF pn _ _ this] pz pn less.prems(2)
        have "wildcards_loop list val (length list) r =
          (case scan_dots list val p of Found i \<Rightarrow> Some i | NotFound \<Rightarrow> Some (length list)
           | Restart \<Rightarrow> wildcards_loop list val (length list) 0)"
          by simp
        with step sd dot nf il pz show ?thesis by (simp add: i_def)
      qed
    qed
  qed
qed


lemma lastIndexOf_found:
  assumes "0 \<le> lastIndexOf s c f"
  shows "s ! nat (lastIndexOf s c f) = c \<and> lastIndexOf s c f < int (length s)"
proof -
  define f' where "f' = (if f < 0 then f + int (length s) else f)"
  from assms have in_range: "0 \<le> f'" "f' < int (length s)"
    and eq: "lastIndexOf s c f = scan_back s c (nat f')"
    by (auto simp: lastIndexOf_def Let_def f'_def split: if_splits)
  from assms scan_back_found [of s c "nat f'"] eq in_range show ?thesis by auto
qed

lemma scan_dots_Restart:
  "scan_dots list val n = Restart \<Longrightarrow>
     0 < n \<and> val ! 0 = CHR ''.'' \<and>
     (\<forall>p < n. val ! p = CHR ''.'' \<longrightarrow> findIndex list (take (Suc p) val @ ''*'') = length list)"
proof (induction n)
  case 0
  then show ?case by simp
next
  case (Suc n)
  have le: "\<not> findIndex list v < length list \<Longrightarrow> findIndex list v = length list" for v
    using findIndex_le [of list v] by linarith
  from Suc show ?case
    by (auto simp: less_Suc_eq le split: if_splits)
qed

text \<open>No run of the loop that starts in the cycle returns.\<close>

lemma wildcards_loop_cycle:
  assumes dot: "val ! 0 = CHR ''.''"
    and none: "\<And>p. p < length val \<Longrightarrow> val ! p = CHR ''.'' \<Longrightarrow>
                findIndex list (take (Suc p) val @ ''*'') = length list"
    and run: "wildcards_loop list' val' i d = Some y"
  shows "\<not> (list' = list \<and> val' = val \<and> i = length list \<and> 0 \<le> d \<and> d < int (length val))"
proof (rule wildcards_loop.raw_induct
    [where P = "\<lambda>l v i d y. \<not> (l = list \<and> v = val \<and> i = length list \<and> 0 \<le> d \<and> d < int (length val))",
      OF _ run])
  fix loop :: "string list \<Rightarrow> string \<Rightarrow> nat \<Rightarrow> int \<Rightarrow> nat option"
  fix l v i d y
  assume IH: "\<And>l v i d y. loop l v i d = Some y \<Longrightarrow>
      \<not> (l = list \<and> v = val \<and> i = length list \<and> 0 \<le> d \<and> d < int (length val))"
  assume eq: "(if i = length l then
        (let dotPos' = lastIndexOf v CHR ''.'' (d - 1)
         in if dotPos' \<noteq> -1
            then loop l v (findIndex l (left v (dotPos' + 1) @ ''*'')) dotPos'
            else Some i)
      else Some i) = Some y"
  show "\<not> (l = list \<and> v = val \<and> i = length list \<and> 0 \<le> d \<and> d < int (length val))"
  proof
    assume st: "l = list \<and> v = val \<and> i = length list \<and> 0 \<le> d \<and> d < int (length val)"
    define d' where "d' = lastIndexOf val CHR ''.'' (d - 1)"
    have b: "0 \<le> d' \<and> d' < int (length val)"
      unfolding d'_def using lastIndexOf_leading [OF dot] st by blast
    then have "val ! nat d' = CHR ''.''"
      using lastIndexOf_found [of val "CHR ''.''" "d - 1"] by (simp add: d'_def)
    moreover from b have nd: "nat d' < length val" by linarith
    ultimately have "findIndex list (take (Suc (nat d')) val @ ''*'') = length list"
      by (intro none)
    moreover have "left val (d' + 1) = take (Suc (nat d')) val"
      using b nd by (intro left_take) simp_all
    ultimately have f: "findIndex list (left val (d' + 1) @ ''*'') = length list"
      by simp
    from st have l: "l = list" and v: "v = val" and i: "i = length list"
      by simp_all
    from eq
    have "(if d' \<noteq> - 1 then loop list val (findIndex list (left val (d' + 1) @ ''*'')) d'
           else Some (length list)) = Some y"
      unfolding l v i d'_def Let_def by simp
    with b have "loop list val (length list) d' = Some y"
      by (simp only: f) (simp split: if_splits)
    from IH [OF this] b show False by simp
  qed
qed

lemma wildcards_loop_restart:
  assumes "scan_dots list val (length val) = Restart"
  shows "wildcards_loop list val (length list) 0 = None"
proof (cases "wildcards_loop list val (length list) 0")
  case None
  then show ?thesis .
next
  case (Some y)
  from scan_dots_Restart [OF assms]
  have "0 < length val" "val ! 0 = CHR ''.''"
    and "\<And>p. p < length val \<Longrightarrow> val ! p = CHR ''.'' \<Longrightarrow>
          findIndex list (take (Suc p) val @ ''*'') = length list"
    by auto
  from wildcards_loop_cycle [OF this(2) this(3) Some] \<open>0 < length val\<close>
  show ?thesis by simp
qed

text \<open>What the function computes, on every input.\<close>

lemma findIndexWithWildcards_eq:
  "findIndexWithWildcards list val =
     (if list = [] \<or> val = [] then Some (length list)
      else if findIndex list val < length list then Some (findIndex list val)
      else case scan_dots list val (length val) of
             Found i \<Rightarrow> Some i
           | NotFound \<Rightarrow> Some (length list)
           | Restart \<Rightarrow> None)"
proof (cases "list = [] \<or> val = []")
  case True
  then show ?thesis by (simp add: findIndexWithWildcards_def)
next
  case False
  then have v: "0 < length val" by simp
  show ?thesis
  proof (cases "findIndex list val < length list")
    case True
    then have "wildcards_loop list val (findIndex list val) 0 = Some (findIndex list val)"
      by (subst wildcards_loop.simps) simp
    with False True show ?thesis by (simp add: findIndexWithWildcards_def)
  next
    case nf: False
    with findIndex_le [of list val] have i: "findIndex list val = length list" by simp
    have "lastIndexOf val CHR ''.'' (0 - 1) = scan_back val CHR ''.'' (length val - 1)"
      using v by (simp add: lastIndexOf_def nat_diff_distrib')
    from wildcards_loop_scan [OF v _ this, of list]
    have "wildcards_loop list val (length list) 0 =
       (case scan_dots list val (length val) of Found i \<Rightarrow> Some i
        | NotFound \<Rightarrow> Some (length list)
        | Restart \<Rightarrow> wildcards_loop list val (length list) 0)"
      by simp
    then have "wildcards_loop list val (length list) 0 =
       (case scan_dots list val (length val) of Found i \<Rightarrow> Some i
        | NotFound \<Rightarrow> Some (length list)
        | Restart \<Rightarrow> None)"
      using wildcards_loop_restart [of list val] by (auto split: outcome.splits)
    with False nf i show ?thesis by (simp add: findIndexWithWildcards_def)
  qed
qed

lemma findIndex_less_iff: "findIndex xs v < length xs \<longleftrightarrow> v \<in> set xs"
  by (induction xs) auto

lemma scan_dots_find:
  "scan_dots list val n =
     (case find (\<lambda>c. c \<in> set list)
        (map (\<lambda>p. take (Suc p) val @ ''*'') (rev (filter (\<lambda>p. val ! p = CHR ''.'') [0..<n]))) of
        Some c \<Rightarrow> Found (findIndex list c)
      | None \<Rightarrow> if 0 < n \<and> val ! 0 = CHR ''.'' then Restart else NotFound)"
proof (induction n)
  case 0
  then show ?case by simp
next
  case (Suc n)
  show ?case
  proof (cases "val ! n = CHR ''.''")
    case False
    with Suc show ?thesis by (cases n) (auto split: option.splits)
  next
    case True
    with Suc show ?thesis
      by (cases n) (auto simp: findIndex_less_iff split: option.splits)
  qed
qed

text \<open>The function computes the index of the caption wherever the lookup ends, and
  does not return elsewhere.\<close>

lemma findIndexWithWildcards_tag_index:
  "findIndexWithWildcards list val =
     (if looked_up list val then Some (tag_index list val) else None)"
proof (cases "list = [] \<or> val = []")
  case True
  then show ?thesis
    by (auto simp: findIndexWithWildcards_eq looked_up_def tag_index_def split: option.splits
        dest: find_Some_iff [THEN iffD1])
next
  case False
  then show ?thesis
    unfolding findIndexWithWildcards_eq scan_dots_find [of list val "length val"]
      looked_up_def tag_index_def wildcards_def
    by (auto simp: findIndex_less_iff split: option.splits)
qed

lemma groupLessThan_tag_less:
  assumes "looked_up list (caption g)" "looked_up list tag"
  shows "groupLessThan list g tag = Some (tag_less list (caption g) tag)"
  using assms by (simp add: groupLessThan_def findIndexWithWildcards_tag_index tag_less_def)

subsection \<open>Model indices\<close>

lemma sint_ucast_row:
  assumes "- (2 ^ 31) \<le> g" "g < 2 ^ 31"
  shows "sint (ucast (word_of_int g :: 64 word) :: 32 word) = g"
proof -
  have "(ucast (word_of_int g :: 64 word) :: 32 word) = word_of_int g"
    by (rule ucast_down_wi) (simp add: is_down)
  then show ?thesis
    using assms by (simp add: sint_sbintrunc' signed_take_bit_int_eq_self)
qed

lemma isValid_invalidIndex [simp]: "\<not> isValid invalidIndex"
  by (simp add: isValid_def invalidIndex_def)

lemma isValid_createIndex [simp]: "isValid (createIndex r c i) = (0 \<le> r \<and> 0 \<le> c)"
  by (simp add: isValid_def createIndex_def)

lemma row_createIndex [simp]: "row (createIndex r c i) = r"
  by (simp add: createIndex_def)

lemma column_createIndex [simp]: "column (createIndex r c i) = c"
  by (simp add: createIndex_def)

lemma internalId_createIndex [simp]: "internalId (createIndex r c i) = i"
  by (simp add: createIndex_def)

text \<open>\<open>index_root\<close> is \<open>index\<close> at the invalid parent.\<close>

lemma index_root_eq: "index m r c invalidIndex = index_root m r c"
  by (auto simp: index_def index_root_def hasIndex_def rowCount_def columnCount_def)

lemma parent_group_index: "parent m (createIndex r c (- 1)) = invalidIndex"
  using sint_ucast_row [of "- 1"] by (simp add: parent_def Let_def)

lemma parent_room_index:
  assumes "0 \<le> g" "g < int (length (m_roomGroups m))" "length (m_roomGroups m) < 2 ^ 31"
    and "0 \<le> r" "0 \<le> c"
  shows "parent m (createIndex r c (word_of_int g)) = createIndex g 0 (- 1)"
proof -
  have "int (length (m_roomGroups m)) < int (2 ^ 31)"
    using assms(3) by (simp only: of_nat_less_iff)
  then have "g < 2 ^ 31" using assms(2) by simp
  then have "sint (ucast (word_of_int g :: 64 word) :: 32 word) = g"
    using assms(1) by (intro sint_ucast_row) simp_all
  then show ?thesis
    using assms by (simp add: parent_def Let_def index_root_def)
qed

lemma hasIndexD:
  assumes "hasIndex m r c p"
  shows "0 \<le> r" "c = 0" "r < rowCount m p"
  using assms by (auto simp: hasIndex_def columnCount_def split: if_splits)

lemma index_valid_or_invalid:
  "index m r c p = invalidIndex \<or>
   (hasIndex m r c p \<and> isValid (index m r c p) \<and>
    index m r c p = createIndex r 0 (word_of_int (if isValid p then row p else - 1)))"
proof (cases "hasIndex m r c p")
  case True
  with hasIndexD [OF True] show ?thesis by (simp add: index_def)
next
  case False
  then show ?thesis by (simp add: index_def)
qed

lemma isValidGroupIndex_range:
  "isValidGroupIndex m i \<Longrightarrow> 0 \<le> row i \<and> nat (row i) < length (m_roomGroups m)"
  by (auto simp: isValidGroupIndex_def isValid_def)

subsection \<open>The bisection\<close>

lemma lower_bound_loop_bounds:
  "lower_bound_loop cmp xs first len = Some k \<Longrightarrow> first \<le> k \<and> k \<le> first + len"
proof (induction cmp xs first len arbitrary: k rule: lower_bound_loop.induct)
  case (1 cmp xs first len)
  show ?case
  proof (cases "0 < len")
    case False
    with "1.prems" show ?thesis
      by (simp add: lower_bound_loop.simps [of cmp xs first len])
  next
    case True
    define half where "half = len div 2"
    define middle where "middle = first + half"
    show ?thesis
    proof (cases "cmp (xs ! middle)")
      case None
      with "1.prems" True show ?thesis
        by (simp add: lower_bound_loop.simps [of cmp xs first len] Let_def half_def middle_def)
    next
      case (Some b)
      show ?thesis
      proof (cases b)
        case True
        with Some "1.prems" \<open>0 < len\<close>
        have "lower_bound_loop cmp xs (middle + 1) (len - half - 1) = Some k"
          by (simp add: lower_bound_loop.simps [of cmp xs first len] Let_def half_def middle_def)
        with "1.IH"(1) [of half middle b k] \<open>0 < len\<close> Some True
        have "middle + 1 \<le> k \<and> k \<le> middle + 1 + (len - half - 1)"
          by (simp add: half_def middle_def)
        then show ?thesis using \<open>0 < len\<close> unfolding middle_def half_def by linarith
      next
        case False
        with Some "1.prems" \<open>0 < len\<close>
        have "lower_bound_loop cmp xs first half = Some k"
          by (simp add: lower_bound_loop.simps [of cmp xs first len] Let_def half_def middle_def)
        with "1.IH"(2) [of half middle b k] \<open>0 < len\<close> Some False
        have "first \<le> k \<and> k \<le> first + half"
          by (simp add: half_def middle_def)
        then show ?thesis using \<open>0 < len\<close> unfolding half_def by linarith
      qed
    qed
  qed
qed

lemma lower_bound_le: "lower_bound cmp xs = Some k \<Longrightarrow> k \<le> length xs"
  using lower_bound_loop_bounds [of cmp xs 0 "length xs" k] by (simp add: lower_bound_def)

text \<open>With a comparator that always returns, the search returns.\<close>

lemma lower_bound_loop_total:
  "(\<And>x. cmp x \<noteq> None) \<Longrightarrow> \<exists>k. lower_bound_loop cmp xs first len = Some k"
proof (induction cmp xs first len rule: lower_bound_loop.induct)
  case (1 cmp xs first len)
  show ?case
  proof (cases "0 < len")
    case False
    then show ?thesis by (simp add: lower_bound_loop.simps [of cmp xs first 0])
  next
    case True
    define half where "half = len div 2"
    define middle where "middle = first + half"
    from "1.prems" obtain b where b: "cmp (xs ! middle) = Some b" by fastforce
    show ?thesis
    proof (cases b)
      case True
      with "1.IH"(1) [of half middle b] "1.prems" \<open>0 < len\<close> b show ?thesis
        by (simp add: lower_bound_loop.simps [of cmp xs first len] Let_def half_def middle_def)
    next
      case False
      with "1.IH"(2) [of half middle b] "1.prems" \<open>0 < len\<close> b show ?thesis
        by (simp add: lower_bound_loop.simps [of cmp xs first len] Let_def half_def middle_def)
    qed
  qed
qed

lemma takeWhile_le_miss:
  assumes "j < length xs" "\<not> p (xs ! j)"
  shows "length (takeWhile p xs) \<le> j"
proof (rule ccontr)
  assume "\<not> length (takeWhile p xs) \<le> j"
  then have j: "j < length (takeWhile p xs)" by simp
  then have "takeWhile p xs ! j = xs ! j" by (rule takeWhile_nth)
  moreover from j have "takeWhile p xs ! j \<in> set (takeWhile p xs)" by simp
  ultimately show False using assms(2) by (auto dest: set_takeWhileD)
qed

lemma takeWhile_gt_hit:
  assumes "partitioned p xs" "j < length xs" "p (xs ! j)"
  shows "j < length (takeWhile p xs)"
proof (rule ccontr)
  assume "\<not> j < length (takeWhile p xs)"
  then have k: "length (takeWhile p xs) \<le> j" by simp
  with assms(2) have "length (takeWhile p xs) < length xs" by simp
  then have "\<not> p (xs ! length (takeWhile p xs))" by (rule nth_length_takeWhile)
  with assms k show False unfolding partitioned_def by blast
qed

lemma lower_bound_loop_partitioned:
  assumes cmp: "\<And>x. x \<in> set xs \<Longrightarrow> cmp x = Some (p x)"
    and part: "partitioned p xs"
  shows "first \<le> length (takeWhile p xs) \<Longrightarrow> length (takeWhile p xs) \<le> first + len \<Longrightarrow>
    first + len \<le> length xs \<Longrightarrow>
    lower_bound_loop cmp xs first len = Some (length (takeWhile p xs))"
proof (induction len arbitrary: first rule: less_induct)
  case (less len)
  define k where "k = length (takeWhile p xs)"
  show ?case
  proof (cases "0 < len")
    case False
    with less.prems show ?thesis
      by (simp add: lower_bound_loop.simps [of cmp xs first 0])
  next
    case True
    define half where "half = len div 2"
    define middle where "middle = first + half"
    have mid: "middle < length xs" using True less.prems(3) by (simp add: middle_def half_def)
    then have c: "cmp (xs ! middle) = Some (p (xs ! middle))" by (intro cmp) simp
    show ?thesis
    proof (cases "p (xs ! middle)")
      case hit: True
      from takeWhile_gt_hit [of p xs middle, OF part mid hit] have "middle + 1 \<le> length (takeWhile p xs)"
        by simp
      moreover have "length (takeWhile p xs) \<le> middle + 1 + (len - half - 1)"
        using less.prems(2) True by (simp add: middle_def half_def)
      moreover have "middle + 1 + (len - half - 1) \<le> length xs"
        using less.prems(3) True by (simp add: middle_def half_def)
      moreover have "len - half - 1 < len" using True by simp
      ultimately have "lower_bound_loop cmp xs (middle + 1) (len - half - 1)
          = Some (length (takeWhile p xs))"
        using less.IH by blast
      with True c hit show ?thesis
        by (simp add: lower_bound_loop.simps [of cmp xs first len] Let_def half_def middle_def)
    next
      case miss: False
      from takeWhile_le_miss [of middle xs p, OF mid miss] have "length (takeWhile p xs) \<le> first + half"
        by (simp add: middle_def)
      moreover have "first + half \<le> length xs"
        using less.prems(3) by (simp add: half_def)
      moreover have "half < len" using True by (simp add: half_def)
      ultimately have "lower_bound_loop cmp xs first half = Some (length (takeWhile p xs))"
        using less.IH less.prems(1) by blast
      with True c miss show ?thesis
        by (simp add: lower_bound_loop.simps [of cmp xs first len] Let_def half_def middle_def)
    qed
  qed
qed

text \<open>On a partitioned range the bisection returns the first position whose element does
  not satisfy the predicate.\<close>

lemma lower_bound_partitioned:
  assumes "\<And>x. x \<in> set xs \<Longrightarrow> cmp x = Some (p x)" and "partitioned p xs"
  shows "lower_bound cmp xs = Some (length (takeWhile p xs))"
  unfolding lower_bound_def
  using assms by (intro lower_bound_loop_partitioned) (simp_all add: length_takeWhile_le)

lemma lowerBoundRoom_le: "lowerBoundRoom e grp r = Some k \<Longrightarrow> k \<le> length (rooms grp)"
  unfolding lowerBoundRoom_def by (rule lower_bound_le)

lemma lowerBoundRoom_total: "\<exists>k. lowerBoundRoom e grp r = Some k"
  unfolding lowerBoundRoom_def lower_bound_def by (rule lower_bound_loop_total) simp

lemma lowerBoundRoom_Nil: "rooms grp = [] \<Longrightarrow> lowerBoundRoom e grp r = Some 0"
  by (simp add: lowerBoundRoom_def lower_bound_def lower_bound_loop.simps)

subsection \<open>Insertion and removal in a vector\<close>

lemma length_insert_at [simp]: "length (insert_at n x xs) = Suc (length xs)"
  by (simp add: insert_at_def)

lemma set_insert_at [simp]: "set (insert_at n x xs) = insert x (set xs)"
proof -
  have "set (take n xs) \<union> set (drop n xs) = set xs"
    by (metis append_take_drop_id set_append)
  then show ?thesis by (auto simp: insert_at_def)
qed

lemma insert_at_not_Nil [simp]: "insert_at n x xs \<noteq> []"
  by (simp add: insert_at_def)

lemma insert_at_update: "n \<le> length xs \<Longrightarrow> (insert_at n x xs)[n := y] = insert_at n y xs"
  by (simp add: insert_at_def list_update_append)

lemma insert_at_nth: "n \<le> length xs \<Longrightarrow> insert_at n x xs ! n = x"
  by (simp add: insert_at_def nth_append)

lemma set_erase_at: "set (erase_at n xs) \<subseteq> set xs"
  by (auto simp: erase_at_def dest: in_set_takeD in_set_dropD)

lemma erase_at_update: "erase_at n (xs[n := y]) = erase_at n xs"
  by (simp add: erase_at_def)

subsection \<open>No operation leaves an empty group\<close>

lemma m_roomGroups_emit [simp]: "m_roomGroups (emit sg m) = m_roomGroups m"
  by (simp add: emit_def)

lemma m_connections_emit [simp]: "m_connections (emit sg m) = m_connections m"
  by (simp add: emit_def)

lemma m_roomIdxCache_emit [simp]: "m_roomIdxCache (emit sg m) = m_roomIdxCache m"
  by (simp add: emit_def)

lemma no_empty_groups_emit [simp]: "no_empty_groups (emit sg m) = no_empty_groups m"
  by (simp add: no_empty_groups_def)

lemma no_empty_groups_cache [simp]:
  "no_empty_groups (m\<lparr>m_roomIdxCache := c\<rparr>) = no_empty_groups m"
  by (simp add: no_empty_groups_def)

lemma no_empty_groups_initial: "no_empty_groups initial"
  by (simp add: no_empty_groups_def initial_def)

lemma no_empty_groups_update:
  assumes "no_empty_groups m" "rooms g \<noteq> []"
  shows "no_empty_groups (m\<lparr>m_roomGroups := (m_roomGroups m)[k := g]\<rparr>)"
  using assms set_update_subset_insert [of "m_roomGroups m" k g]
  by (auto simp: no_empty_groups_def)

text \<open>\<^verbatim>\<open>tryInsertGroup\<close> either finds the group or inserts an empty one at the position it
  returns.\<close>

lemma tryInsertGroup_cases:
  assumes "tryInsertGroup e cap n m = Some (gPos, m1)"
  shows "(m1 = m \<and> gPos < length (m_roomGroups m)) \<or>
         (gPos \<le> length (m_roomGroups m) \<and>
          m_roomGroups m1 = insert_at gPos \<lparr>caption = cap, rooms = []\<rparr> (m_roomGroups m))"
proof -
  from assms obtain k where k: "lowerBoundGroup e m cap = Some k"
    by (auto simp: tryInsertGroup_def split: bind_splits)
  then have le: "k \<le> length (m_roomGroups m)"
    unfolding lowerBoundGroup_def by (rule lower_bound_le)
  show ?thesis
  proof (cases "k = length (m_roomGroups m) \<or> caption (m_roomGroups m ! k) \<noteq> cap")
    case True
    with assms k le show ?thesis
      by (auto simp: tryInsertGroup_def Let_def split: if_splits)
  next
    case False
    with assms k le show ?thesis
      by (auto simp: tryInsertGroup_def Let_def)
  qed
qed

lemma insertRoomToGroups_no_empty:
  "insertRoomToGroups e gs r n m = Some m' \<Longrightarrow> no_empty_groups m \<Longrightarrow> no_empty_groups m'"
proof (induction gs arbitrary: m)
  case Nil
  then show ?case by simp
next
  case (Cons g gs)
  from Cons.prems(1) obtain gPos m1 where t: "tryInsertGroup e g n m = Some (gPos, m1)"
    by (auto split: bind_splits)
  obtain rPos where l: "lowerBoundRoom e (m_roomGroups m1 ! gPos) r = Some rPos"
    using lowerBoundRoom_total by blast
  define grp where "grp = m_roomGroups m1 ! gPos"
  define grp' where "grp' = grp\<lparr>rooms := insert_at rPos r (rooms grp)\<rparr>"
  define m3 where "m3 = m1\<lparr>m_roomGroups := (m_roomGroups m1)[gPos := grp']\<rparr>"
  have ne3: "no_empty_groups m3"
    using tryInsertGroup_cases [OF t]
  proof
    assume "m1 = m \<and> gPos < length (m_roomGroups m)"
    then show ?thesis
      using Cons.prems(2) unfolding m3_def
      by (intro no_empty_groups_update) (simp_all add: grp'_def)
  next
    assume b: "gPos \<le> length (m_roomGroups m) \<and>
      m_roomGroups m1 = insert_at gPos \<lparr>caption = g, rooms = []\<rparr> (m_roomGroups m)"
    then have "m_roomGroups m3 = insert_at gPos grp' (m_roomGroups m)"
      by (simp add: m3_def insert_at_update)
    then show ?thesis
      using Cons.prems(2) by (simp add: no_empty_groups_def grp'_def)
  qed
  show ?case
  proof (cases "rPos \<noteq> length (rooms grp) \<and> rooms grp ! rPos = r")
    case True
    with Cons.prems(1) t l have rest: "insertRoomToGroups e gs r n m1 = Some m'"
      by (simp add: grp_def)
    have "no_empty_groups m1"
      using tryInsertGroup_cases [OF t]
    proof
      assume "m1 = m \<and> gPos < length (m_roomGroups m)"
      with Cons.prems(2) show ?thesis by simp
    next
      assume b: "gPos \<le> length (m_roomGroups m) \<and>
        m_roomGroups m1 = insert_at gPos \<lparr>caption = g, rooms = []\<rparr> (m_roomGroups m)"
      then have "rooms grp = []" by (simp add: grp_def insert_at_nth)
      with lowerBoundRoom_Nil [of grp e r] l True show ?thesis by (simp add: grp_def)
    qed
    with Cons.IH [OF rest] show ?thesis .
  next
    case False
    define m4 where "m4 = (if n then emit EndInsertRows
        ((if n then emit (BeginInsertRows (index m1 (int gPos) 0 invalidIndex) (int rPos) (int rPos)) m1
          else m1)\<lparr>m_roomGroups := (m_roomGroups m1)[gPos := grp']\<rparr>)
        else m1\<lparr>m_roomGroups := (m_roomGroups m1)[gPos := grp']\<rparr>)"
    from False Cons.prems(1) t l have rest: "insertRoomToGroups e gs r n m4 = Some m'"
      by (auto simp: grp_def grp'_def m4_def Let_def split: if_splits)
    have "no_empty_groups m4"
      using ne3 by (cases n) (simp_all add: m4_def m3_def no_empty_groups_def emit_def)
    with Cons.IH [OF rest] show ?thesis .
  qed
qed

lemma doRemoveRoom_no_empty:
  assumes "no_empty_groups m"
  shows "no_empty_groups (doRemoveRoom idx m)"
proof (cases "isValidRoomIndex m idx")
  case False
  with assms show ?thesis by (simp add: doRemoveRoom_def)
next
  case True
  define gPos where "gPos = nat (row (parent m idx))"
  define grp' where "grp' = (m_roomGroups m ! gPos)
    \<lparr>rooms := erase_at (nat (row idx)) (rooms (m_roomGroups m ! gPos))\<rparr>"
  show ?thesis
  proof (cases "rooms grp' = []")
    case e: True
    have "m_roomGroups (doRemoveRoom idx m) = erase_at gPos (m_roomGroups m)"
      using True e by (simp add: doRemoveRoom_def Let_def gPos_def grp'_def erase_at_update)
    then show ?thesis
      using assms set_erase_at [of gPos "m_roomGroups m"] by (auto simp: no_empty_groups_def)
  next
    case ne: False
    have "m_roomGroups (doRemoveRoom idx m) = (m_roomGroups m)[gPos := grp']"
      using True ne by (simp add: doRemoveRoom_def Let_def gPos_def grp'_def)
    then show ?thesis
      using assms ne set_update_subset_insert [of "m_roomGroups m" gPos grp']
      by (auto simp: no_empty_groups_def)
  qed
qed

text \<open>What every call of the visitor keeps, \<^verbatim>\<open>visitRoom\<close> keeps.\<close>

lemma visitRoom_loop_preserves:
  assumes step: "\<And>idx m. P m \<Longrightarrow> P (visitor idx m)"
  shows "visitRoom_loop e visitor r gs m = Some m' \<Longrightarrow> P m \<Longrightarrow> P m'"
proof (induction gs arbitrary: m)
  case Nil
  then show ?case by simp
next
  case (Cons g gs)
  from Cons.prems(1) obtain idx where i: "indexOf e m g r = Some idx"
    by (auto split: bind_splits)
  show ?case
  proof (cases "isValidGroupIndex m (parent m idx) \<and> isValidRoomIndex m idx")
    case True
    with Cons.prems(1) i have "visitRoom_loop e visitor r gs (visitor idx m) = Some m'"
      by simp
    from Cons.IH [OF this] step [OF Cons.prems(2)] show ?thesis .
  next
    case False
    with Cons.prems(1) i have "visitRoom_loop e visitor r gs m = Some m'"
      by (auto split: if_splits)
    from Cons.IH [OF this Cons.prems(2)] show ?thesis .
  qed
qed

lemma deleteRoom_no_empty:
  "deleteRoom e r m = Some m' \<Longrightarrow> no_empty_groups m \<Longrightarrow> no_empty_groups m'"
  unfolding deleteRoom_def visitRoom_def
  by (rule visitRoom_loop_preserves [where P = no_empty_groups]) (rule doRemoveRoom_no_empty)

lemma refresh_no_empty:
  assumes "refresh e r m = Some m'" "no_empty_groups m"
  shows "no_empty_groups m'"
proof -
  have "\<And>idx m. no_empty_groups m \<Longrightarrow> no_empty_groups (emit (DataChanged idx idx) m)"
    by simp
  from visitRoom_loop_preserves [of no_empty_groups "\<lambda>idx. emit (DataChanged idx idx)", OF this]
    assms show ?thesis
    unfolding refresh_def visitRoom_def by blast
qed

lemma updateGroups_loop_no_empty:
  "updateGroups_loop e r cache gs m = Some (gs', m') \<Longrightarrow> no_empty_groups m \<Longrightarrow>
   no_empty_groups m'"
proof (induction cache arbitrary: gs m)
  case Nil
  then show ?case by simp
next
  case (Cons oldIndex rest)
  define gIdx where "gIdx = parent m oldIndex"
  define gPos where "gPos = nat (row gIdx)"
  define grp where "grp = m_roomGroups m ! gPos"
  from Cons.prems(1) have range: "0 \<le> row gIdx" "row gIdx < int (length (m_roomGroups m))"
    by (auto simp: gIdx_def Let_def split: if_splits)
  then have mem: "grp \<in> set (m_roomGroups m)"
    by (simp add: grp_def gPos_def)
  show ?case
  proof (cases "caption grp \<in> set gs")
    case False
    with Cons.prems(1) range
    have "updateGroups_loop e r rest gs (doRemoveRoom oldIndex m) = Some (gs', m')"
      by (simp add: Let_def gIdx_def gPos_def grp_def split: if_splits)
    from Cons.IH [OF this doRemoveRoom_no_empty [OF Cons.prems(2)]] show ?thesis .
  next
    case True
    obtain newPos where l: "lowerBoundRoom e grp r = Some newPos"
      using lowerBoundRoom_total by blast
    show ?thesis
    proof (cases "int newPos = row oldIndex")
      case same: True
      with Cons.prems(1) range True l
      have "updateGroups_loop e r rest (remove1 (caption grp) gs) m = Some (gs', m')"
        by (simp add: Let_def gIdx_def gPos_def grp_def split: if_splits)
      from Cons.IH [OF this Cons.prems(2)] show ?thesis .
    next
      case diff: False
      define grp' where
        "grp' = grp\<lparr>rooms := (rooms grp)[newPos := rooms grp ! nat (row oldIndex)]\<rparr>"
      define m3 where "m3 = emit EndMoveRows
        ((emit (BeginMoveRows gIdx (row oldIndex) (row oldIndex) gIdx (int newPos)) m)
           \<lparr>m_roomGroups := (m_roomGroups m)[gPos := grp']\<rparr>)"
      from Cons.prems(1) range True l diff
      have "updateGroups_loop e r rest (remove1 (caption grp) gs) m3 = Some (gs', m')"
        by (simp add: Let_def gIdx_def gPos_def grp_def grp'_def m3_def split: if_splits)
      moreover have "rooms grp' \<noteq> []"
        using mem Cons.prems(2) by (simp add: grp'_def no_empty_groups_def)
      then have "no_empty_groups m3"
        using Cons.prems(2) set_update_subset_insert [of "m_roomGroups m" gPos grp']
        by (auto simp: m3_def no_empty_groups_def emit_def)
      ultimately show ?thesis by (rule Cons.IH)
    qed
  qed
qed

lemma updateGroups_no_empty:
  assumes "updateGroups e r m = Some m'" "no_empty_groups m"
  shows "no_empty_groups m'"
proof -
  from assms(1) obtain gs m1 where
    l: "updateGroups_loop e r (m_roomIdxCache m) (groups (roomData e) r) m = Some (gs, m1)"
    and i: "insertRoomToGroups e gs r True (m1\<lparr>m_roomIdxCache := []\<rparr>) = Some m'"
    by (auto simp: updateGroups_def split: bind_splits)
  from updateGroups_loop_no_empty [OF l assms(2)]
  have "no_empty_groups (m1\<lparr>m_roomIdxCache := []\<rparr>)"
    by simp
  with i show ?thesis by (rule insertRoomToGroups_no_empty)
qed

lemma prepareToUpdateGroups_loop_groups:
  "prepareToUpdateGroups_loop e r gs m = Some m' \<Longrightarrow> m_roomGroups m' = m_roomGroups m"
  by (induction gs arbitrary: m) (auto split: bind_splits)

lemma prepareToUpdateGroups_no_empty:
  "prepareToUpdateGroups e r m = Some m' \<Longrightarrow> no_empty_groups m \<Longrightarrow> no_empty_groups m'"
  by (auto simp: prepareToUpdateGroups_def no_empty_groups_def
      dest: prepareToUpdateGroups_loop_groups)

lemma setTags_no_empty:
  "setTags r ts (e, m) = Some (e', m') \<Longrightarrow> no_empty_groups m \<Longrightarrow> no_empty_groups m'"
  unfolding setTags_def
  by (auto simp: Let_def split: bind_splits
      dest: prepareToUpdateGroups_no_empty updateGroups_no_empty)

lemma removeTag_no_empty:
  "removeTag r tag (e, m) = Some (e', m') \<Longrightarrow> no_empty_groups m \<Longrightarrow> no_empty_groups m'"
  by (auto simp: removeTag_def split: if_splits dest: setTags_no_empty)

lemma removeTag_rooms_no_empty:
  "removeTag_rooms tag rs (e, m) = Some (e', m') \<Longrightarrow> no_empty_groups m \<Longrightarrow>
   no_empty_groups m'"
proof (induction rs arbitrary: e m)
  case Nil
  then show ?case by simp
next
  case (Cons r rs)
  from Cons.prems(1) obtain e1 m1 where s: "removeTag r tag (e, m) = Some (e1, m1)"
    and rest: "removeTag_rooms tag rs (e1, m1) = Some (e', m')"
    by (auto split: bind_splits)
  from Cons.IH [OF rest removeTag_no_empty [OF s Cons.prems(2)]] show ?case .
qed

lemma deleteTag_loop_no_empty:
  "deleteTag_loop tag cs (e, m) = Some (e', m') \<Longrightarrow> no_empty_groups m \<Longrightarrow>
   no_empty_groups m'"
proof (induction cs arbitrary: e m)
  case Nil
  then show ?case by simp
next
  case (Cons c cs)
  from Cons.prems(1) obtain e1 m1
    where s: "removeTag_rooms tag (roomsWithTag e c tag) (e, m) = Some (e1, m1)"
    and rest: "deleteTag_loop tag cs (e1, m1) = Some (e', m')"
    by (auto split: bind_splits)
  from Cons.IH [OF rest removeTag_rooms_no_empty [OF s Cons.prems(2)]] show ?case .
qed

lemma deleteTag_no_empty:
  "deleteTag idx (e, m) = Some (e', m') \<Longrightarrow> no_empty_groups m \<Longrightarrow> no_empty_groups m'"
  by (auto simp: deleteTag_def Let_def split: if_splits dest: deleteTag_loop_no_empty)

lemma insertRoom_no_empty:
  "insertRoom e r n m = Some m' \<Longrightarrow> no_empty_groups m \<Longrightarrow> no_empty_groups m'"
  by (auto simp: insertRoom_def split: if_splits dest: insertRoomToGroups_no_empty)

lemma insertRooms_no_empty:
  "insertRooms e rs m = Some m' \<Longrightarrow> no_empty_groups m \<Longrightarrow> no_empty_groups m'"
proof (induction rs arbitrary: m)
  case Nil
  then show ?case by simp
next
  case (Cons r rs)
  from Cons.prems(1) obtain m1 where s: "insertRoom e r (notifyDefault e) m = Some m1"
    and rest: "insertRooms e rs m1 = Some m'"
    by (auto split: bind_splits)
  from Cons.IH [OF rest insertRoom_no_empty [OF s Cons.prems(2)]] show ?case .
qed

lemma doRebuild_no_empty: "doRebuild e m = Some m' \<Longrightarrow> no_empty_groups m'"
  unfolding doRebuild_def by (erule insertRooms_no_empty) (simp add: no_empty_groups_def)

lemma addConnection_no_empty:
  "addConnection e c m = Some m' \<Longrightarrow> no_empty_groups m \<Longrightarrow> no_empty_groups m'"
  by (auto simp: addConnection_def Let_def no_empty_groups_def emit_def split: bind_splits
      dest!: insertRooms_no_empty)

lemma deleteConnection_no_empty:
  "no_empty_groups m \<Longrightarrow> no_empty_groups (deleteConnection e c m)"
  by (auto simp: deleteConnection_def Let_def no_empty_groups_def emit_def)

lemma replaceRoom_no_empty:
  "replaceRoom e r prev m = Some m' \<Longrightarrow> no_empty_groups m \<Longrightarrow> no_empty_groups m'"
  by (auto simp: replaceRoom_def split: if_splits bind_splits
      dest: refresh_no_empty doRebuild_no_empty)

lemma setOrder_no_empty: "setOrder e m = Some m' \<Longrightarrow> no_empty_groups m'"
  by (auto simp: setOrder_def split: bind_splits dest: doRebuild_no_empty)

lemma perform_no_empty:
  "perform x (e, m) = Some (e', m') \<Longrightarrow> no_empty_groups m \<Longrightarrow> no_empty_groups m'"
  by (cases x)
    (auto dest: addConnection_no_empty deleteConnection_no_empty deleteTag_no_empty
      replaceRoom_no_empty deleteRoom_no_empty insertRoom_no_empty setOrder_no_empty
      refresh_no_empty prepareToUpdateGroups_no_empty updateGroups_no_empty setTags_no_empty)

subsection \<open>An inserted room is listed under its groups\<close>

lemma listed_emit [simp]: "listed (emit sg m) r cap = listed m r cap"
  by (simp add: listed_def)

lemma tryInsertGroup_caption:
  assumes "tryInsertGroup e cap n m = Some (gPos, m1)"
  shows "gPos < length (m_roomGroups m1) \<and> caption (m_roomGroups m1 ! gPos) = cap"
proof -
  from assms obtain k where k: "lowerBoundGroup e m cap = Some k"
    by (auto simp: tryInsertGroup_def split: bind_splits)
  then have le: "k \<le> length (m_roomGroups m)"
    unfolding lowerBoundGroup_def by (rule lower_bound_le)
  show ?thesis
  proof (cases "k = length (m_roomGroups m) \<or> caption (m_roomGroups m ! k) \<noteq> cap")
    case True
    with assms k le show ?thesis
      by (auto simp: tryInsertGroup_def Let_def insert_at_nth split: if_splits)
  next
    case False
    with assms k le show ?thesis
      by (auto simp: tryInsertGroup_def Let_def)
  qed
qed

lemma tryInsertGroup_listed:
  assumes "tryInsertGroup e cap n m = Some (gPos, m1)" "listed m r c"
  shows "listed m1 r c"
  using tryInsertGroup_cases [OF assms(1)] assms(2) by (auto simp: listed_def)

lemma listed_update:
  assumes "listed m r c" "k < length (m_roomGroups m)"
    "caption g = caption (m_roomGroups m ! k)" "set (rooms (m_roomGroups m ! k)) \<subseteq> set (rooms g)"
  shows "listed (m\<lparr>m_roomGroups := (m_roomGroups m)[k := g]\<rparr>) r c"
proof -
  from assms(1) obtain grp where grp: "grp \<in> set (m_roomGroups m)" "caption grp = c"
    "r \<in> set (rooms grp)"
    unfolding listed_def by blast
  from grp(1) obtain i where i: "i < length (m_roomGroups m)" "m_roomGroups m ! i = grp"
    by (meson in_set_conv_nth)
  let ?gs = "(m_roomGroups m)[k := g]"
  have "?gs ! i \<in> set ?gs" using i by simp
  moreover have "caption (?gs ! i) = c \<and> r \<in> set (rooms (?gs ! i))"
    using i grp assms(2-4) by (cases "i = k") auto
  ultimately show ?thesis
    unfolding listed_def by (simp del: set_update_distinct) blast
qed

text \<open>When \<^verbatim>\<open>insertRoomToGroups\<close> returns, the model lists the room under every caption
  it was given, and under every caption under which it listed the room before.\<close>

lemma insertRoomToGroups_listed:
  "insertRoomToGroups e gs r n m = Some m' \<Longrightarrow>
   (\<forall>c \<in> set gs. listed m' r c) \<and> (\<forall>c. listed m r c \<longrightarrow> listed m' r c)"
proof (induction gs arbitrary: m)
  case Nil
  then show ?case by simp
next
  case (Cons g gs)
  from Cons.prems obtain gPos m1 where t: "tryInsertGroup e g n m = Some (gPos, m1)"
    by (auto split: bind_splits)
  obtain rPos where l: "lowerBoundRoom e (m_roomGroups m1 ! gPos) r = Some rPos"
    using lowerBoundRoom_total by blast
  define grp where "grp = m_roomGroups m1 ! gPos"
  from tryInsertGroup_caption [OF t] have gp: "gPos < length (m_roomGroups m1)"
    and cap: "caption grp = g"
    by (simp_all add: grp_def)
  from lowerBoundRoom_le [OF l] have rle: "rPos \<le> length (rooms grp)" by (simp add: grp_def)
  have keep1: "listed m1 r c" if "listed m r c" for c
    using t that by (rule tryInsertGroup_listed)
  show ?case
  proof (cases "rPos \<noteq> length (rooms grp) \<and> rooms grp ! rPos = r")
    case True
    with Cons.prems t l have rest: "insertRoomToGroups e gs r n m1 = Some m'"
      by (simp add: grp_def)
    from True rle have "r \<in> set (rooms grp)" by (metis le_neq_implies_less nth_mem)
    with gp cap have "listed m1 r g"
      unfolding listed_def grp_def by (metis nth_mem)
    with Cons.IH [OF rest] keep1 show ?thesis by auto
  next
    case False
    define grp' where "grp' = grp\<lparr>rooms := insert_at rPos r (rooms grp)\<rparr>"
    define m3 where "m3 = m1\<lparr>m_roomGroups := (m_roomGroups m1)[gPos := grp']\<rparr>"
    define m4 where "m4 = (if n then emit EndInsertRows
        ((if n then emit (BeginInsertRows (index m1 (int gPos) 0 invalidIndex) (int rPos) (int rPos)) m1
          else m1)\<lparr>m_roomGroups := (m_roomGroups m1)[gPos := grp']\<rparr>)
        else m1\<lparr>m_roomGroups := (m_roomGroups m1)[gPos := grp']\<rparr>)"
    from False Cons.prems t l have rest: "insertRoomToGroups e gs r n m4 = Some m'"
      by (auto simp: grp_def grp'_def m4_def Let_def split: if_splits)
    have g4: "m_roomGroups m4 = m_roomGroups m3"
      by (simp add: m4_def m3_def)
    then have l4: "listed m4 r c = listed m3 r c" for c
      by (simp add: listed_def)
    have keep3: "listed m3 r c" if "listed m1 r c" for c
      unfolding m3_def using that gp
      by (rule listed_update) (auto simp: grp'_def grp_def)
    have "grp' \<in> set (m_roomGroups m3)"
      using gp by (simp add: m3_def set_update_memI)
    moreover have "caption grp' = g" "r \<in> set (rooms grp')"
      using cap by (simp_all add: grp'_def)
    ultimately have "listed m3 r g" unfolding listed_def by blast
    with Cons.IH [OF rest] keep1 keep3 l4 show ?thesis by auto
  qed
qed

lemma insertRoom_listed:
  assumes "insertRoom e r n m = Some m'" "r \<noteq> nullptr"
  shows "\<forall>c \<in> set (groups (roomData e) r). listed m' r c"
  using assms insertRoomToGroups_listed [of e "groups (roomData e) r" r n m m']
  by (simp add: insertRoom_def)

subsection \<open>Sorted ranges and the order of the comparators\<close>

lemma strict_weak_asym: "strict_weak lt \<Longrightarrow> lt a b \<Longrightarrow> \<not> lt b a"
  unfolding strict_weak_def by blast

lemma strict_weak_negtrans: "strict_weak lt \<Longrightarrow> \<not> lt a b \<Longrightarrow> \<not> lt b c \<Longrightarrow> \<not> lt a c"
  unfolding strict_weak_def by meson

lemma sorted_partitioned:
  assumes "strict_weak lt" "sorted_wrt (\<lambda>a b. \<not> lt b a) xs"
  shows "partitioned (\<lambda>x. lt x r) xs"
  unfolding partitioned_def
proof (intro allI impI)
  fix i j
  assume a: "i \<le> j \<and> j < length xs \<and> lt (xs ! j) r"
  show "lt (xs ! i) r"
  proof (cases "i = j")
    case True
    with a show ?thesis by simp
  next
    case False
    with a have "i < j" by simp
    with a sorted_wrt_nth_less [OF assms(2), of i j] have "\<not> lt (xs ! j) (xs ! i)"
      by simp
    show ?thesis
    proof (rule ccontr)
      assume "\<not> lt (xs ! i) r"
      with \<open>\<not> lt (xs ! j) (xs ! i)\<close> have "\<not> lt (xs ! j) r"
        by (rule strict_weak_negtrans [OF assms(1)])
      with a show False by simp
    qed
  qed
qed

lemma insert_at_takeWhile:
  "insert_at (length (takeWhile p xs)) r xs = takeWhile p xs @ r # dropWhile p xs"
  by (simp add: insert_at_def takeWhile_eq_take [symmetric] dropWhile_eq_drop [symmetric])

lemma sorted_insert_lower:
  assumes sw: "strict_weak lt" and sorted: "sorted_wrt (\<lambda>a b. \<not> lt b a) xs"
  shows "sorted_wrt (\<lambda>a b. \<not> lt b a) (insert_at (length (takeWhile (\<lambda>x. lt x r) xs)) r xs)"
proof -
  let ?le = "\<lambda>a b. \<not> lt b a"
  define tw where "tw = takeWhile (\<lambda>x. lt x r) xs"
  define dw where "dw = dropWhile (\<lambda>x. lt x r) xs"
  have xs: "xs = tw @ dw" by (simp add: tw_def dw_def)
  from sorted have s1: "sorted_wrt ?le tw" and s2: "sorted_wrt ?le dw"
    and cross: "\<forall>x\<in>set tw. \<forall>y\<in>set dw. ?le x y"
    unfolding xs sorted_wrt_append by auto
  have before: "\<forall>x\<in>set tw. ?le x r"
  proof
    fix x assume "x \<in> set tw"
    then have "lt x r" unfolding tw_def by (rule set_takeWhileD [THEN conjunct2])
    then show "\<not> lt r x" by (rule strict_weak_asym [OF sw])
  qed
  have after: "\<forall>y\<in>set dw. ?le r y"
  proof (cases dw)
    case Nil
    then show ?thesis by simp
  next
    case (Cons h t)
    then have h: "\<not> lt h r" using hd_dropWhile [of "\<lambda>x. lt x r" xs] by (simp add: dw_def)
    from s2 Cons have t: "\<forall>y\<in>set t. \<not> lt y h" by simp
    have "\<forall>y\<in>set t. \<not> lt y r"
    proof
      fix y assume "y \<in> set t"
      with t have "\<not> lt y h" by simp
      then show "\<not> lt y r" using h by (rule strict_weak_negtrans [OF sw])
    qed
    with h Cons show ?thesis by simp
  qed
  have "insert_at (length (takeWhile (\<lambda>x. lt x r) xs)) r xs = tw @ r # dw"
    by (simp add: insert_at_takeWhile tw_def dw_def)
  moreover have "sorted_wrt ?le (tw @ r # dw)"
    unfolding sorted_wrt_append using s1 s2 cross before after by simp
  ultimately show ?thesis by simp
qed

lemma sorted_erase_at:
  assumes "sorted_wrt P xs"
  shows "sorted_wrt P (erase_at n xs)"
proof -
  from assms have "sorted_wrt P (take n xs @ drop n xs)" by simp
  then have a: "sorted_wrt P (take n xs)" and b: "sorted_wrt P (drop n xs)"
    and c: "\<forall>x\<in>set (take n xs). \<forall>y\<in>set (drop n xs). P x y"
    unfolding sorted_wrt_append by auto
  have d: "drop (Suc n) xs = drop 1 (drop n xs)" by simp
  have "sorted_wrt P (drop (Suc n) xs)"
    unfolding d using b by (rule sorted_wrt_drop)
  moreover have "set (drop (Suc n) xs) \<subseteq> set (drop n xs)"
    unfolding d by (rule set_drop_subset)
  ultimately show ?thesis
    unfolding erase_at_def sorted_wrt_append using a c by auto
qed

lemma roomLessThanFactory_key:
  "roomLessThanFactory h tag r1 r2 =
     (omitted_rank (h r1) tag < omitted_rank (h r2) tag \<or>
      (omitted_rank (h r1) tag = omitted_rank (h r2) tag \<and>
       (order_value (h r1) tag < order_value (h r2) tag \<or>
        (order_value (h r1) tag = order_value (h r2) tag \<and> room_id (h r1) < room_id (h r2)))))"
proof (cases "r1 = r2")
  case True
  then show ?thesis by (simp add: roomLessThanFactory_def)
next
  case False
  show ?thesis
  proof (cases "tag_order (h r1) tag")
    case None
    with False show ?thesis
      by (cases "tag_order (h r2) tag")
        (simp_all add: roomLessThanFactory_def omitted_rank_def order_value_def)
  next
    case (Some v1)
    with False show ?thesis
      by (cases "tag_order (h r2) tag")
        (simp_all add: roomLessThanFactory_def omitted_rank_def order_value_def)
  qed
qed

lemma lex3_strict_weak:
  fixes f :: "'a \<Rightarrow> nat" and g :: "'a \<Rightarrow> rat" and k :: "'a \<Rightarrow> string"
  shows "strict_weak (\<lambda>a b. f a < f b \<or> (f a = f b \<and> (g a < g b \<or> (g a = g b \<and> k a < k b))))"
  unfolding strict_weak_def
proof (intro conjI allI impI)
  fix a b
  assume "f a < f b \<or> (f a = f b \<and> (g a < g b \<or> (g a = g b \<and> k a < k b)))"
  then show "\<not> (f b < f a \<or> (f b = f a \<and> (g b < g a \<or> (g b = g a \<and> k b < k a))))"
    by auto
next
  fix a b c
  assume "\<not> (f a < f b \<or> (f a = f b \<and> (g a < g b \<or> (g a = g b \<and> k a < k b)))) \<and>
          \<not> (f b < f c \<or> (f b = f c \<and> (g b < g c \<or> (g b = g c \<and> k b < k c))))"
  then have "f b \<le> f a" "f c \<le> f b"
    and "f a = f b \<Longrightarrow> g b \<le> g a" "f b = f c \<Longrightarrow> g c \<le> g b"
    and "f a = f b \<Longrightarrow> g a = g b \<Longrightarrow> k b \<le> k a" "f b = f c \<Longrightarrow> g b = g c \<Longrightarrow> k c \<le> k b"
    by (auto simp: not_less)
  then show "\<not> (f a < f c \<or> (f a = f c \<and> (g a < g c \<or> (g a = g c \<and> k a < k c))))"
    by (metis le_antisym le_trans not_less order.trans antisym)
qed

lemma roomLessThan_strict_weak: "strict_weak (roomLessThanFactory h tag)"
proof -
  have "roomLessThanFactory h tag = (\<lambda>a b.
      omitted_rank (h a) tag < omitted_rank (h b) tag \<or>
      (omitted_rank (h a) tag = omitted_rank (h b) tag \<and>
       (order_value (h a) tag < order_value (h b) tag \<or>
        (order_value (h a) tag = order_value (h b) tag \<and> room_id (h a) < room_id (h b)))))"
    by (intro ext) (rule roomLessThanFactory_key)
  then show ?thesis
    using lex3_strict_weak [of "\<lambda>a. omitted_rank (h a) tag" "\<lambda>a. order_value (h a) tag"
        "\<lambda>a. room_id (h a)"] by simp
qed

lemma tag_less_strict_weak: "strict_weak (\<lambda>g1 g2. tag_less list (caption g1) (caption g2))"
  unfolding strict_weak_def tag_less_def by auto


lemma groups_sorted_captions:
  "groups_sorted e gs =
     sorted_wrt (\<lambda>c1 c2. groupLessThan (tagsOrder e) \<lparr>caption = c2, rooms = []\<rparr> c1 = Some False)
       (map caption gs)"
  by (simp add: groups_sorted_def sorted_wrt_map groupLessThan_def)

lemma groups_sorted_tag_less:
  assumes "\<forall>g\<in>set gs. looked_up (tagsOrder e) (caption g)"
  shows "groups_sorted e gs =
     sorted_wrt (\<lambda>a b. \<not> tag_less (tagsOrder e) (caption b) (caption a)) gs"
proof
  assume "groups_sorted e gs"
  then show "sorted_wrt (\<lambda>a b. \<not> tag_less (tagsOrder e) (caption b) (caption a)) gs"
    unfolding groups_sorted_def
    by (rule sorted_wrt_mono_rel [rotated]) (use assms in \<open>simp add: groupLessThan_tag_less\<close>)
next
  assume "sorted_wrt (\<lambda>a b. \<not> tag_less (tagsOrder e) (caption b) (caption a)) gs"
  then show "groups_sorted e gs"
    unfolding groups_sorted_def
    by (rule sorted_wrt_mono_rel [rotated]) (use assms in \<open>simp add: groupLessThan_tag_less\<close>)
qed

lemma lowerBoundGroup_sorted:
  assumes ok: "captions_ok e m" and cap: "looked_up (tagsOrder e) cap"
    and sorted: "groups_sorted e (m_roomGroups m)"
  shows "lowerBoundGroup e m cap =
     Some (length (takeWhile (\<lambda>g. tag_less (tagsOrder e) (caption g) cap) (m_roomGroups m)))"
  unfolding lowerBoundGroup_def
proof (rule lower_bound_partitioned)
  fix g assume "g \<in> set (m_roomGroups m)"
  with ok cap show "groupLessThan (tagsOrder e) g cap = Some (tag_less (tagsOrder e) (caption g) cap)"
    by (simp add: captions_ok_def groupLessThan_tag_less)
next
  from ok sorted
  have "sorted_wrt (\<lambda>a b. \<not> tag_less (tagsOrder e) (caption b) (caption a)) (m_roomGroups m)"
    by (simp add: groups_sorted_tag_less captions_ok_def)
  from sorted_partitioned [OF tag_less_strict_weak this, of "\<lparr>caption = cap, rooms = []\<rparr>"]
  show "partitioned (\<lambda>g. tag_less (tagsOrder e) (caption g) cap) (m_roomGroups m)"
    by simp
qed

lemma lowerBoundRoom_sorted:
  assumes "rooms_sorted e grp"
  shows "lowerBoundRoom e grp r =
     Some (length (takeWhile (\<lambda>x. roomLessThanFactory (roomData e) (caption grp) x r) (rooms grp)))"
  unfolding lowerBoundRoom_def
proof (rule lower_bound_partitioned)
  from assms show "partitioned (\<lambda>x. roomLessThanFactory (roomData e) (caption grp) x r) (rooms grp)"
    unfolding rooms_sorted_def by (rule sorted_partitioned [OF roomLessThan_strict_weak])
qed simp

lemma model_sorted_emit [simp]: "model_sorted e (emit sg m) = model_sorted e m"
  by (simp add: model_sorted_def)

lemma captions_ok_emit [simp]: "captions_ok e (emit sg m) = captions_ok e m"
  by (simp add: captions_ok_def)

text \<open>In a sorted model whose captions, like the new one, can be looked up,
  \<^verbatim>\<open>tryInsertGroup\<close> returns the position of the group with the caption, in a sorted model.\<close>

lemma tryInsertGroup_sorted:
  assumes sorted: "model_sorted e m" and ok: "captions_ok e m"
    and cap: "looked_up (tagsOrder e) cap"
  shows "\<exists>gPos m1. tryInsertGroup e cap n m = Some (gPos, m1) \<and>
     gPos < length (m_roomGroups m1) \<and> caption (m_roomGroups m1 ! gPos) = cap \<and>
     model_sorted e m1 \<and> captions_ok e m1"
proof -
  let ?gs = "m_roomGroups m"
  let ?new = "\<lparr>caption = cap, rooms = []\<rparr>"
  define k where "k = length (takeWhile (\<lambda>g. tag_less (tagsOrder e) (caption g) cap) ?gs)"
  from sorted have gs: "groups_sorted e ?gs" and rs: "list_all (rooms_sorted e) ?gs"
    by (simp_all add: model_sorted_def)
  have lb: "lowerBoundGroup e m cap = Some k"
    unfolding k_def using ok cap gs by (rule lowerBoundGroup_sorted)
  have kle: "k \<le> length ?gs" unfolding k_def by (rule length_takeWhile_le)
  show ?thesis
  proof (cases "k = length ?gs \<or> caption (?gs ! k) \<noteq> cap")
    case False
    with lb kle have "tryInsertGroup e cap n m = Some (k, m)"
      by (simp add: tryInsertGroup_def)
    with False kle sorted ok show ?thesis by auto
  next
    case True
    define m2 where "m2 = m\<lparr>m_roomGroups := insert_at k ?new ?gs\<rparr>"
    define m3 where "m3 = (if n then emit (GroupAdded (int k)) (emit EndInsertRows
        ((emit (BeginInsertRows invalidIndex (int k) (int k)) m)
          \<lparr>m_roomGroups := insert_at k ?new ?gs\<rparr>)) else m2)"
    from True lb have t: "tryInsertGroup e cap n m = Some (k, m3)"
      by (simp add: tryInsertGroup_def Let_def m3_def m2_def)
    have g3: "m_roomGroups m3 = insert_at k ?new ?gs"
      by (simp add: m3_def m2_def)
    have ok3: "captions_ok e m3"
      using ok cap by (simp add: captions_ok_def g3)
    from ok gs
    have "sorted_wrt (\<lambda>a b. \<not> tag_less (tagsOrder e) (caption b) (caption a)) ?gs"
      by (simp add: groups_sorted_tag_less captions_ok_def)
    from sorted_insert_lower [OF tag_less_strict_weak this, of ?new]
    have "sorted_wrt (\<lambda>a b. \<not> tag_less (tagsOrder e) (caption b) (caption a)) (insert_at k ?new ?gs)"
      by (simp add: k_def)
    with ok3 have "groups_sorted e (m_roomGroups m3)"
      by (simp add: groups_sorted_tag_less captions_ok_def g3)
    moreover have "list_all (rooms_sorted e) (m_roomGroups m3)"
      using rs by (simp add: g3 list_all_iff rooms_sorted_def)
    ultimately have "model_sorted e m3" by (simp add: model_sorted_def)
    with t ok3 kle show ?thesis
      by (simp add: g3 insert_at_nth)
  qed
qed

lemma map_caption_update:
  "k < length gs \<Longrightarrow> map caption (gs[k := (gs ! k)\<lparr>rooms := rs\<rparr>]) = map caption gs"
  by (simp add: map_update list_update_same_conv)

text \<open>In a sorted model, \<^verbatim>\<open>insertRoomToGroups\<close> returns, and the model it leaves is
  sorted.\<close>

lemma insertRoomToGroups_sorted:
  assumes "model_sorted e m" "captions_ok e m" "\<forall>g\<in>set gs. looked_up (tagsOrder e) g"
  shows "\<exists>m'. insertRoomToGroups e gs r n m = Some m' \<and> model_sorted e m' \<and> captions_ok e m'"
  using assms
proof (induction gs arbitrary: m)
  case Nil
  then show ?case by simp
next
  case (Cons g gs)
  from Cons.prems have "looked_up (tagsOrder e) g" by simp
  from tryInsertGroup_sorted [OF Cons.prems(1,2) this, of n]
  obtain gPos m1 where t: "tryInsertGroup e g n m = Some (gPos, m1)"
    and gp: "gPos < length (m_roomGroups m1)"
    and s1: "model_sorted e m1" and ok1: "captions_ok e m1"
    by blast
  define grp where "grp = m_roomGroups m1 ! gPos"
  from gp have mem: "grp \<in> set (m_roomGroups m1)" by (simp add: grp_def)
  with s1 have rs: "rooms_sorted e grp" by (simp add: model_sorted_def list_all_iff)
  define rPos where
    "rPos = length (takeWhile (\<lambda>x. roomLessThanFactory (roomData e) (caption grp) x r) (rooms grp))"
  have l: "lowerBoundRoom e grp r = Some rPos"
    unfolding rPos_def using rs by (rule lowerBoundRoom_sorted)
  from Cons.prems have rest_ok: "\<forall>g\<in>set gs. looked_up (tagsOrder e) g" by simp
  show ?case
  proof (cases "rPos \<noteq> length (rooms grp) \<and> rooms grp ! rPos = r")
    case True
    with t l have "insertRoomToGroups e (g # gs) r n m = insertRoomToGroups e gs r n m1"
      by (simp add: grp_def)
    with Cons.IH [OF s1 ok1 rest_ok] show ?thesis by simp
  next
    case False
    define grp' where "grp' = grp\<lparr>rooms := insert_at rPos r (rooms grp)\<rparr>"
    define m4 where "m4 = (if n then emit EndInsertRows
        ((if n then emit (BeginInsertRows (index m1 (int gPos) 0 invalidIndex) (int rPos) (int rPos)) m1
          else m1)\<lparr>m_roomGroups := (m_roomGroups m1)[gPos := grp']\<rparr>)
        else m1\<lparr>m_roomGroups := (m_roomGroups m1)[gPos := grp']\<rparr>)"
    from False t l have step: "insertRoomToGroups e (g # gs) r n m = insertRoomToGroups e gs r n m4"
      by (auto simp: grp_def grp'_def m4_def Let_def)
    have g4: "m_roomGroups m4 = (m_roomGroups m1)[gPos := grp']"
      by (simp add: m4_def)
    have caps: "map caption (m_roomGroups m4) = map caption (m_roomGroups m1)"
      unfolding g4 grp'_def grp_def using gp by (rule map_caption_update)
    have "rooms_sorted e grp'"
      using sorted_insert_lower [OF roomLessThan_strict_weak, of "roomData e" "caption grp" "rooms grp" r] rs
      by (simp add: rooms_sorted_def grp'_def rPos_def)
    with s1 set_update_subset_insert [of "m_roomGroups m1" gPos grp']
    have "list_all (rooms_sorted e) (m_roomGroups m4)"
      by (auto simp: model_sorted_def list_all_iff g4)
    moreover from s1 have "groups_sorted e (m_roomGroups m4)"
      by (simp add: model_sorted_def groups_sorted_captions caps)
    ultimately have s4: "model_sorted e m4" by (simp add: model_sorted_def)
    have "caption grp' = caption grp" by (simp add: grp'_def)
    with ok1 mem set_update_subset_insert [of "m_roomGroups m1" gPos grp']
    have ok4: "captions_ok e m4"
      by (auto simp: captions_ok_def g4)
    from Cons.IH [OF s4 ok4 rest_ok] step show ?thesis by simp
  qed
qed


subsection \<open>The operations other than a tag change keep a sorted model sorted\<close>

lemma well_sorted_emit [simp]: "well_sorted e (emit sg m) = well_sorted e m"
  by (simp add: well_sorted_def)

lemma well_sorted_cache [simp]: "well_sorted e (m\<lparr>m_roomIdxCache := c\<rparr>) = well_sorted e m"
  by (simp add: well_sorted_def model_sorted_def captions_ok_def)

lemma well_sorted_connections [simp]:
  "well_sorted e (m\<lparr>m_connections := c\<rparr>) = well_sorted e m"
  by (simp add: well_sorted_def model_sorted_def captions_ok_def)

lemma well_sorted_empty [simp]: "well_sorted e (m\<lparr>m_roomGroups := []\<rparr>)"
  by (simp add: well_sorted_def model_sorted_def captions_ok_def groups_sorted_def)

lemma doRemoveRoom_sorted:
  assumes "well_sorted e m"
  shows "well_sorted e (doRemoveRoom idx m)"
proof (cases "isValidRoomIndex m idx")
  case False
  with assms show ?thesis by (simp add: doRemoveRoom_def)
next
  case True
  define gPos where "gPos = nat (row (parent m idx))"
  define grp where "grp = m_roomGroups m ! gPos"
  define grp' where "grp' = grp\<lparr>rooms := erase_at (nat (row idx)) (rooms grp)\<rparr>"
  from True have gp: "gPos < length (m_roomGroups m)"
    using isValidGroupIndex_range [of m "parent m idx"]
    by (simp add: isValidRoomIndex_def gPos_def)
  then have mem: "grp \<in> set (m_roomGroups m)" by (simp add: grp_def)
  from assms have gs: "groups_sorted e (m_roomGroups m)"
    and rs: "\<forall>g\<in>set (m_roomGroups m). rooms_sorted e g"
    and ok: "\<forall>g\<in>set (m_roomGroups m). looked_up (tagsOrder e) (caption g)"
    by (simp_all add: well_sorted_def model_sorted_def captions_ok_def list_all_iff)
  have rs': "rooms_sorted e grp'"
    using rs mem by (simp add: rooms_sorted_def grp'_def sorted_erase_at)
  have c': "caption grp' = caption grp" by (simp add: grp'_def)
  show ?thesis
  proof (cases "rooms grp' = []")
    case e: True
    have g: "m_roomGroups (doRemoveRoom idx m) = erase_at gPos (m_roomGroups m)"
      using True e
      by (simp add: doRemoveRoom_def Let_def gPos_def grp_def grp'_def erase_at_update)
    have "groups_sorted e (erase_at gPos (m_roomGroups m))"
      using gs unfolding groups_sorted_def by (rule sorted_erase_at)
    with rs ok set_erase_at [of gPos "m_roomGroups m"] show ?thesis
      by (auto simp: well_sorted_def model_sorted_def captions_ok_def list_all_iff g)
  next
    case ne: False
    have g: "m_roomGroups (doRemoveRoom idx m) = (m_roomGroups m)[gPos := grp']"
      using True ne by (simp add: doRemoveRoom_def Let_def gPos_def grp_def grp'_def)
    have "map caption ((m_roomGroups m)[gPos := grp']) = map caption (m_roomGroups m)"
      unfolding grp'_def grp_def using gp by (rule map_caption_update)
    with gs have "groups_sorted e ((m_roomGroups m)[gPos := grp'])"
      by (simp add: groups_sorted_captions)
    with rs ok rs' c' mem set_update_subset_insert [of "m_roomGroups m" gPos grp'] show ?thesis
      by (auto simp: well_sorted_def model_sorted_def captions_ok_def list_all_iff g)
  qed
qed

lemma indexOf_total:
  assumes "well_sorted e m" "looked_up (tagsOrder e) cap"
  shows "\<exists>idx. indexOf e m cap r = Some idx"
proof -
  from assms obtain k where "lowerBoundGroup e m cap = Some k"
    using lowerBoundGroup_sorted [of e m cap] by (simp add: well_sorted_def model_sorted_def)
  moreover obtain j where "lowerBoundRoom e (m_roomGroups m ! k) r = Some j"
    using lowerBoundRoom_total by blast
  ultimately show ?thesis by (simp add: indexOf_def Let_def)
qed

lemma visitRoom_loop_sorted:
  assumes step: "\<And>idx m. well_sorted e m \<Longrightarrow> well_sorted e (visitor idx m)"
  shows "well_sorted e m \<Longrightarrow> \<forall>g\<in>set gs. looked_up (tagsOrder e) g \<Longrightarrow>
    \<exists>m'. visitRoom_loop e visitor r gs m = Some m' \<and> well_sorted e m'"
proof (induction gs arbitrary: m)
  case Nil
  then show ?case by simp
next
  case (Cons g gs)
  from Cons.prems have "looked_up (tagsOrder e) g" by simp
  from indexOf_total [OF Cons.prems(1) this] obtain idx where i: "indexOf e m g r = Some idx"
    by blast
  from Cons.prems have rest: "\<forall>g\<in>set gs. looked_up (tagsOrder e) g" by simp
  show ?case
  proof (cases "isValidGroupIndex m (parent m idx) \<and> isValidRoomIndex m idx")
    case True
    with i have "visitRoom_loop e visitor r (g # gs) m = visitRoom_loop e visitor r gs (visitor idx m)"
      by simp
    with Cons.IH [OF step [OF Cons.prems(1)] rest] show ?thesis by simp
  next
    case False
    with i have "visitRoom_loop e visitor r (g # gs) m = visitRoom_loop e visitor r gs m"
      by auto
    with Cons.IH [OF Cons.prems(1) rest] show ?thesis by simp
  qed
qed

lemma deleteRoom_sorted:
  assumes "tags_ok e" "well_sorted e m"
  shows "\<exists>m'. deleteRoom e r m = Some m' \<and> well_sorted e m'"
  unfolding deleteRoom_def visitRoom_def
  using assms by (intro visitRoom_loop_sorted doRemoveRoom_sorted) (simp_all add: tags_ok_def)

lemma refresh_sorted:
  assumes "tags_ok e" "well_sorted e m"
  shows "\<exists>m'. refresh e r m = Some m' \<and> well_sorted e m'"
  unfolding refresh_def visitRoom_def
  using assms by (intro visitRoom_loop_sorted) (simp_all add: tags_ok_def)

lemma insertRoom_sorted:
  assumes "tags_ok e" "well_sorted e m"
  shows "\<exists>m'. insertRoom e r n m = Some m' \<and> well_sorted e m'"
proof (cases "r = nullptr")
  case True
  with assms show ?thesis by (simp add: insertRoom_def)
next
  case False
  from assms have "\<forall>g\<in>set (groups (roomData e) r). looked_up (tagsOrder e) g"
    by (simp add: tags_ok_def)
  from insertRoomToGroups_sorted [OF _ _ this, of m r n] assms False show ?thesis
    by (simp add: insertRoom_def well_sorted_def)
qed

lemma insertRooms_sorted:
  assumes "tags_ok e"
  shows "well_sorted e m \<Longrightarrow> \<exists>m'. insertRooms e rs m = Some m' \<and> well_sorted e m'"
proof (induction rs arbitrary: m)
  case Nil
  then show ?case by simp
next
  case (Cons r rs)
  from insertRoom_sorted [OF assms Cons.prems, of r "notifyDefault e"]
  obtain m1 where "insertRoom e r (notifyDefault e) m = Some m1" "well_sorted e m1"
    by blast
  with Cons.IH [of m1] show ?case by simp
qed

lemma doRebuild_sorted:
  assumes "tags_ok e"
  shows "\<exists>m'. doRebuild e m = Some m' \<and> well_sorted e m'"
  unfolding doRebuild_def using assms by (intro insertRooms_sorted) simp_all

lemma addConnection_sorted:
  assumes "tags_ok e" "well_sorted e m"
  shows "\<exists>m'. addConnection e c m = Some m' \<and> well_sorted e m'"
proof -
  from insertRooms_sorted [OF assms(1), of "(emit BeginResetModel m)\<lparr>m_connections := m_connections m @ [c]\<rparr>" "roomMap e c"]
    assms(2)
  show ?thesis by (auto simp: addConnection_def Let_def)
qed

lemma deleteConnection_sorted:
  assumes "well_sorted e m"
  shows "well_sorted e (deleteConnection e c m)"
proof (cases "c \<in> set (m_connections m)")
  case False
  with assms show ?thesis by (simp add: deleteConnection_def)
next
  case True
  let ?f = "\<lambda>g. g\<lparr>rooms := filter (\<lambda>r. connection (roomData e r) \<noteq> c) (rooms g)\<rparr>"
  let ?gs = "filter (\<lambda>g. rooms g \<noteq> []) (map ?f (m_roomGroups m))"
  from True have g: "m_roomGroups (deleteConnection e c m) = ?gs"
    by (simp add: deleteConnection_def Let_def)
  from assms have gs: "groups_sorted e (m_roomGroups m)"
    and rs: "\<forall>g\<in>set (m_roomGroups m). rooms_sorted e g"
    and ok: "\<forall>g\<in>set (m_roomGroups m). looked_up (tagsOrder e) (caption g)"
    by (simp_all add: well_sorted_def model_sorted_def captions_ok_def list_all_iff)
  from gs have "groups_sorted e (map ?f (m_roomGroups m))"
    by (simp add: groups_sorted_captions comp_def)
  then have "groups_sorted e ?gs"
    unfolding groups_sorted_def by (rule sorted_wrt_filter)
  moreover have "\<forall>g\<in>set ?gs. rooms_sorted e g \<and> looked_up (tagsOrder e) (caption g)"
    using rs ok by (auto simp: rooms_sorted_def sorted_wrt_filter)
  ultimately show ?thesis
    by (simp add: well_sorted_def model_sorted_def captions_ok_def list_all_iff g)
qed

lemma replaceRoom_sorted:
  assumes "tags_ok e" "well_sorted e m"
  shows "\<exists>m'. replaceRoom e r prev m = Some m' \<and> well_sorted e m'"
proof (cases "prev = r")
  case True
  with refresh_sorted [OF assms] show ?thesis by (simp add: replaceRoom_def)
next
  case False
  with doRebuild_sorted [OF assms(1), of "emit BeginResetModel m"] show ?thesis
    by (auto simp: replaceRoom_def)
qed

lemma setOrder_sorted:
  assumes "tags_ok e"
  shows "\<exists>m'. setOrder e m = Some m' \<and> well_sorted e m'"
  using doRebuild_sorted [OF assms, of "emit BeginResetModel m"] by (auto simp: setOrder_def)


text \<open>A room that is in a sorted group, and that the comparator tells apart from every other
  room of the group, stands at its lower bound.\<close>

lemma lowerBoundRoom_finds:
  assumes sorted: "rooms_sorted e grp" and mem: "r \<in> set (rooms grp)"
    and apart: "\<forall>x\<in>set (rooms grp). x \<noteq> r \<longrightarrow>
        roomLessThanFactory (roomData e) (caption grp) x r \<or>
        roomLessThanFactory (roomData e) (caption grp) r x"
  shows "\<exists>k. lowerBoundRoom e grp r = Some k \<and> k < length (rooms grp) \<and> rooms grp ! k = r"
proof -
  let ?lt = "roomLessThanFactory (roomData e) (caption grp)"
  define k where "k = length (takeWhile (\<lambda>x. ?lt x r) (rooms grp))"
  have lb: "lowerBoundRoom e grp r = Some k"
    unfolding k_def using sorted by (rule lowerBoundRoom_sorted)
  from mem obtain i where i: "i < length (rooms grp)" "rooms grp ! i = r"
    by (auto simp: in_set_conv_nth)
  have irr: "\<not> ?lt r r" by (simp add: roomLessThanFactory_def)
  with i have ki: "k \<le> i"
    unfolding k_def using takeWhile_le_miss [of i "rooms grp" "\<lambda>x. ?lt x r"] by simp
  with i have kl: "k < length (rooms grp)" by simp
  then have nk: "\<not> ?lt (rooms grp ! k) r"
    unfolding k_def by (rule nth_length_takeWhile)
  have "rooms grp ! k = r"
  proof (cases "k = i")
    case True
    with i show ?thesis by simp
  next
    case False
    with ki have "k < i" by simp
    with sorted i have "\<not> ?lt r (rooms grp ! k)"
      using sorted_wrt_nth_less [of "\<lambda>a b. \<not> ?lt b a" "rooms grp" k i]
      by (simp add: rooms_sorted_def)
    with nk apart kl show ?thesis by (metis nth_mem)
  qed
  with lb kl show ?thesis by simp
qed

text \<open>Every operation but the tag change and \<^verbatim>\<open>deleteTag\<close>, which changes tags, returns
  on a sorted model and leaves it sorted.\<close>

lemma sorted_kept_by_other_operations:
  assumes "tags_ok e" "well_sorted e m"
    and "x = AddConnection c \<or> x = DeleteConnection c \<or> x = ReplaceRoom r prev \<or>
         x = DeleteRoom r \<or> x = InsertRoom r n \<or> x = SetOrder \<or> x = Refresh r"
  shows "\<exists>m'. perform x (e, m) = Some (e, m') \<and> well_sorted e m'"
  using assms(3) addConnection_sorted [OF assms(1,2), of c] deleteConnection_sorted [OF assms(2), of c]
    replaceRoom_sorted [OF assms(1,2), of r prev] deleteRoom_sorted [OF assms(1,2), of r]
    insertRoom_sorted [OF assms(1,2), of r n] setOrder_sorted [OF assms(1), of m]
    refresh_sorted [OF assms(1,2), of r]
  by (elim disjE) auto

text \<open>The hypotheses hold in the world of the three rooms, where deleting room 2 leaves the
  rooms 1 and 3 in order.\<close>

lemma sorted_kept_example:
  "tags_ok three_rooms \<and> well_sorted three_rooms work_model \<and>
   (\<exists>m'. perform (DeleteRoom 2) (three_rooms, work_model) = Some (three_rooms, m') \<and>
      well_sorted three_rooms m' \<and> map rooms (m_roomGroups m') = [[1, 3]])"
proof -
  have g: "groups (roomData three_rooms) r = [''u.work'']" for r
    by (simp add: groups_def three_rooms_def)
  have l: "looked_up (tagsOrder three_rooms) ''u.work''"
    by code_simp
  have t: "tags_ok three_rooms"
    by (simp add: tags_ok_def g l)
  have w: "well_sorted three_rooms work_model"
    by code_simp
  have x: "DeleteRoom 2 = AddConnection 0 \<or> DeleteRoom 2 = DeleteConnection 0 \<or>
      DeleteRoom 2 = ReplaceRoom 2 0 \<or> DeleteRoom 2 = DeleteRoom 2 \<or>
      DeleteRoom 2 = InsertRoom 2 False \<or> DeleteRoom 2 = SetOrder \<or> DeleteRoom 2 = Refresh 2"
    by simp
  from sorted_kept_by_other_operations [OF t w x]
  obtain m' where p: "perform (DeleteRoom 2) (three_rooms, work_model) = Some (three_rooms, m')"
    and w': "well_sorted three_rooms m'"
    by blast
  have "map_option (map rooms \<circ> m_roomGroups \<circ> snd)
      (perform (DeleteRoom 2) (three_rooms, work_model)) = Some [[1, 3]]"
    by code_simp
  then have r: "map rooms (m_roomGroups m') = [[1, 3]]"
    unfolding p by simp
  show ?thesis
    using t w p w' r by (intro conjI exI [of _ m'])
qed

section \<open>The claims\<close>

text \<open>
  Claim C1: after every mutating operation the groups are sorted with respect to
  \<^verbatim>\<open>groupLessThan\<close>, and the rooms of every group with respect to the comparator of
  \<^verbatim>\<open>roomLessThanFactory\<close> for the caption of the group.

  The tag-change handler breaks it. In \<open>work_model\<close> the group \<open>u.work\<close> lists the rooms
  1, 2, 3 in order. When the order of room 3 under the tag drops from 0.3 to 0.05,
  \<^verbatim>\<open>updateGroups\<close> finds the new position 0 and assigns room 3 to it; the group then lists
  3, 2, 3, where room 3, at the end, is less than room 2 before it. The other operations
  keep a sorted model sorted (\<open>sorted_kept_by_other_operations\<close>).
\<close>

theorem updateGroups_leaves_group_unsorted:
  "model_sorted three_rooms work_model \<and>
   (case setTags 3 [(''u.work'', Some (1 / 20))] (three_rooms, work_model) of
      None \<Rightarrow> False
    | Some (e', m') \<Rightarrow>
        m_roomGroups m' = [\<lparr>caption = ''u.work'', rooms = [3, 2, 3]\<rparr>] \<and>
        \<not> model_sorted e' m')"
  by code_simp


text \<open>
  Claim C3: \<^verbatim>\<open>insertRoomToGroups\<close> creates a missing group at its sorted position, inserts
  the room at the lower bound of the group, and leaves the group as it is when the room
  is already there: no room is listed twice.

  The last part fails for two room objects that the comparator cannot tell apart. With
  two accounts in one room and no tags, the model after both \<^verbatim>\<open>addConnection\<close> calls lists
  the rooms 2, 1 under the untagged group. The lower bound of room 1 is the position 0,
  where room 2 stands, so room 1 is taken for absent and inserted again. The first two
  parts hold in a sorted model (\<open>tryInsertGroup_sorted\<close>, \<open>insertRoomToGroups_sorted\<close>),
  and the last one for a room that the comparator tells apart from the others of its
  group (\<open>lowerBoundRoom_finds\<close>).
\<close>

theorem insertRoomToGroups_duplicates_tied_room:
  "map_option snd (run [AddConnection 1, AddConnection 2] (two_accounts, initial)) = Some accounts_model \<and>
   model_sorted two_accounts accounts_model \<and>
   map_option m_roomGroups (insertRoomToGroups two_accounts [Untagged] 1 True accounts_model)
     = Some [\<lparr>caption = Untagged, rooms = [1, 2, 1]\<rparr>]"
  by code_simp

text \<open>
  Claim C4: the group comparator orders captions by their index in the tags order, where
  a caption that is not in the list falls back to a wildcard entry, tried over the dots of
  the caption from right to left; captions that are not found come last, and equal indices
  are ordered by the captions.

  For a caption with a leading dot that matches nothing, such as \<open>.a\<close> with the default
  order, the comparator does not return: after the dot at position 0 the loop decrements
  \<open>dotPos\<close> to \<open>-1\<close>, which \<^verbatim>\<open>lastIndexOf\<close> reads as the last position, and the search
  starts over. On every other caption the comparator computes what the claim says
  (\<open>findIndexWithWildcards_tag_index\<close>, \<open>groupLessThan_tag_less\<close>).
\<close>

theorem findIndexWithWildcards_leading_dot_diverges:
  "findIndexWithWildcards (initTagsOrder []) ''.a'' = None \<and>
   groupLessThan (initTagsOrder []) \<lparr>caption = ''.a'', rooms = [1]\<rparr> ''u.work'' = None \<and>
   groupLessThan (initTagsOrder []) \<lparr>caption = ''u.work'', rooms = [1]\<rparr> ''.a'' = None"
proof -
  have "\<not> looked_up (initTagsOrder []) ''.a''"
    by code_simp
  then have "findIndexWithWildcards (initTagsOrder []) ''.a'' = None"
    by (simp add: findIndexWithWildcards_tag_index)
  moreover have "findIndexWithWildcards (initTagsOrder []) ''u.work'' = Some 1"
    by code_simp
  ultimately show ?thesis by (simp add: groupLessThan_def)
qed

text \<open>
  Claim C5: on a tag change, \<^verbatim>\<open>updateGroups\<close> moves the room, within every group it stays
  in, from its old position to the lower bound; it removes the room from the groups it
  left and inserts it into the new ones.

  The room is not moved: it is copied over the room at the new position. When the order
  of room 2 drops from 0.2 to 0.05, the group that listed 1, 2, 3 lists 2, 2, 3, and
  room 1 is gone from the model.
\<close>

theorem updateGroups_overwrites_neighbour:
  "map_option snd (run [AddConnection 1] (three_rooms, initial)) = Some work_model \<and>
   map_option (m_roomGroups \<circ> snd)
     (setTags 2 [(''u.work'', Some (1 / 20))] (three_rooms, work_model))
     = Some [\<lparr>caption = ''u.work'', rooms = [2, 2, 3]\<rparr>]"
  by code_simp

text \<open>
  Claim C6: \<^verbatim>\<open>deleteRoom\<close> removes the room from every group in which the order lists it,
  and removes the groups that become empty.

  With two accounts in one room the order lists room 1 under the untagged group, and the
  model has it there, at position 1 behind room 2. \<^verbatim>\<open>indexOf\<close> looks at the lower bound,
  position 0, finds room 2 and reports room 1 as absent; \<^verbatim>\<open>deleteRoom\<close> removes nothing.
\<close>

theorem deleteRoom_misses_tied_room:
  "groups (roomData two_accounts) 1 = [Untagged] \<and>
   m_roomGroups accounts_model = [\<lparr>caption = Untagged, rooms = [2, 1]\<rparr>] \<and>
   map_option m_roomGroups (deleteRoom two_accounts 1 accounts_model)
     = Some [\<lparr>caption = Untagged, rooms = [2, 1]\<rparr>]"
  by code_simp

text \<open>
  Claim C7: every structural change is announced by a matching pair of notifications
  whose rows are those of the change; a re-sort within a group by
  \<^verbatim>\<open>beginMoveRows\<close> and \<^verbatim>\<open>endMoveRows\<close> with the old and the new position.

  When the order of room 2 drops from 0.2 to 0.05, the model announces that row 1 of the
  group moves before row 0, which for the rooms 1, 2, 3 gives 2, 1, 3. The change it makes
  is another one: the group lists 2, 2, 3.
\<close>

theorem moveRows_announced_but_not_performed:
  "(case setTags 2 [(''u.work'', Some (1 / 20))] (three_rooms, work_model) of
      None \<Rightarrow> False
    | Some (e', m') \<Rightarrow>
        emitted m' = emitted work_model @
          [BeginMoveRows (createIndex 0 0 (- 1)) 1 1 (createIndex 0 0 (- 1)) 0, EndMoveRows] \<and>
        map rooms (m_roomGroups work_model) = [[1, 2, 3]] \<and>
        moved_row 1 0 [1, 2, 3 :: nat] = [2, 1, 3] \<and>
        map rooms (m_roomGroups m') = [[2, 2, 3]])"
  by code_simp

text \<open>
  Claim C8: \<^verbatim>\<open>index\<close> and \<^verbatim>\<open>parent\<close> round-trip. For every parent index \<open>p\<close> of the
  model (the invalid index of the root, or an index that \<^verbatim>\<open>index\<close> returns) and every row
  and column that \<^verbatim>\<open>hasIndex\<close> accepts under \<open>p\<close>, the parent of \<open>index row column p\<close> is
  \<open>p\<close>. The index of a group has the internal id \<open>-1\<close> and an invalid parent, the index of
  a room has the row of its group as internal id. A \<^verbatim>\<open>QVector\<close> has fewer than \<open>2^31\<close>
  elements, so the row of a group fits the \<^verbatim>\<open>int\<close> that \<^verbatim>\<open>parent\<close> reads back.
\<close>

theorem index_parent_roundtrip:
  assumes small: "length (m_roomGroups m) < 2 ^ 31"
    and own: "p = invalidIndex \<or> p = index m r' c' q"
    and has: "hasIndex m r c p"
  shows "parent m (index m r c p) = p \<and>
         internalId (index m r c p) = word_of_int (if isValid p then row p else - 1) \<and>
         (if isValid p then isValidGroupIndex m p \<and> internalId p = - 1
          else \<not> isValid (parent m (index m r c p)))"
proof (cases "isValid p")
  case False
  with own index_valid_or_invalid [of m r' c' q] have p: "p = invalidIndex"
    by auto
  from has have "index m r c p = createIndex r c (- 1)"
    by (simp add: index_def p)
  then show ?thesis
    by (simp add: p parent_group_index)
next
  case True
  with own index_valid_or_invalid [of m r' c' q]
  have p: "p = createIndex r' 0 (word_of_int (if isValid q then row q else - 1))"
    and hq: "hasIndex m r' c' q"
    by auto
  from has have "0 < rowCount m p" using hasIndexD [OF has] by linarith
  with True have grp: "isValidGroupIndex m p"
    by (auto simp: rowCount_def split: if_splits)
  have nq: "\<not> isValid q"
  proof
    assume q: "isValid q"
    from hq have "0 < rowCount m q" using hasIndexD [OF hq] by linarith
    with q have "isValidGroupIndex m q"
      by (auto simp: rowCount_def split: if_splits)
    with q have "0 \<le> row q" "row q < int (length (m_roomGroups m))"
      by (auto simp: isValidGroupIndex_def isValid_def)
    then have "parent m p = createIndex (row q) 0 (- 1)"
      using hasIndexD [OF hq] q small unfolding p by (simp add: parent_room_index)
    with grp \<open>0 \<le> row q\<close> show False
      by (simp add: isValidGroupIndex_def)
  qed
  then have p': "p = createIndex r' 0 (- 1)"
    using p hasIndexD [OF hq] by simp
  from grp have r': "0 \<le> r'" "r' < int (length (m_roomGroups m))"
    by (auto simp: isValidGroupIndex_def p')
  from has True have "index m r c p = createIndex r c (word_of_int r')"
    by (simp add: index_def p')
  moreover have "parent m (createIndex r c (word_of_int r')) = p"
    using r' small hasIndexD [OF has] unfolding p' by (simp add: parent_room_index)
  ultimately show ?thesis
    using True grp by (simp add: p')
qed

theorem index_parent_roundtrip_witness:
  "length (m_roomGroups work_model) < 2 ^ 31 \<and>
   hasIndex work_model 2 0 (index work_model 0 0 invalidIndex) \<and>
   isValid (index work_model 0 0 invalidIndex) \<and>
   parent work_model (index work_model 2 0 (index work_model 0 0 invalidIndex))
     = index work_model 0 0 invalidIndex \<and>
   internalId (index work_model 2 0 (index work_model 0 0 invalidIndex)) = 0 \<and>
   internalId (index work_model 0 0 invalidIndex) = - 1"
proof -
  have small: "length (m_roomGroups work_model) < 2 ^ 31"
    by (simp add: work_model_def)
  have has: "hasIndex work_model 2 0 (index work_model 0 0 invalidIndex)"
    by code_simp
  have v: "isValid (index work_model 0 0 invalidIndex)"
    by code_simp
  have r: "row (index work_model 0 0 invalidIndex) = 0"
    by code_simp
  from index_parent_roundtrip [OF small _ has, of 0 0 invalidIndex] v r small has
  show ?thesis by simp
qed

text \<open>
  Claim C9: no empty group is kept. If no group of the model is empty, then after any
  sequence of operations that return, no group is empty; the model of the constructor has
  no group at all.
\<close>

theorem no_empty_groups_after_operations:
  assumes "no_empty_groups m" and "run ops (e, m) = Some (e', m')"
  shows "no_empty_groups m'"
  using assms(2) assms(1)
proof (induction ops arbitrary: e m)
  case Nil
  then show ?case by simp
next
  case (Cons x xs)
  from Cons.prems(1) obtain e1 m1 where s: "perform x (e, m) = Some (e1, m1)"
    and rest: "run xs (e1, m1) = Some (e', m')"
    by (auto split: bind_splits)
  from Cons.IH [OF rest perform_no_empty [OF s Cons.prems(2)]] show ?case .
qed

theorem no_empty_groups_after_operations_witness:
  "no_empty_groups initial \<and>
   (case run [AddConnection 1, TagsChange 2 [(''m.favourite'', None)], DeleteRoom 3,
              DeleteTag (createIndex 0 0 (- 1)), DeleteConnection 1]
           (three_rooms, initial) of
      None \<Rightarrow> False
    | Some (e', m') \<Rightarrow> no_empty_groups m')"
proof -
  let ?ops = "[AddConnection 1, TagsChange 2 [(''m.favourite'', None)], DeleteRoom 3,
              DeleteTag (createIndex 0 0 (- 1)), DeleteConnection 1]"
  have "(case run ?ops (three_rooms, initial) of None \<Rightarrow> False | Some em \<Rightarrow> True)"
    by code_simp
  then obtain e' m' where r: "run ?ops (three_rooms, initial) = Some (e', m')"
    by (auto split: option.splits)
  from no_empty_groups_after_operations [OF no_empty_groups_initial r] r
  show ?thesis by (simp add: no_empty_groups_initial)
qed

text \<open>
  Claim C10: \<^verbatim>\<open>deleteTag\<close> changes nothing, neither in the model nor in the rooms, when
  its argument is not the index of a group, when the caption of the group is empty, and
  when the caption starts with \<open>org.qmatrixclient.\<close>, as the captions of the direct chats
  and of the untagged rooms do.
\<close>

theorem deleteTag_guards:
  assumes "\<not> isValidGroupIndex m idx \<or>
     caption (m_roomGroups m ! nat (row idx)) = [] \<or>
     startsWith (caption (m_roomGroups m ! nat (row idx))) ''org.qmatrixclient.''"
  shows "deleteTag idx (e, m) = Some (e, m)"
  using assms by (auto simp: deleteTag_def Let_def)

theorem deleteTag_guards_witness:
  "isValidGroupIndex accounts_model (createIndex 0 0 (- 1)) \<and>
   caption (m_roomGroups accounts_model ! nat (row (createIndex 0 0 (- 1)))) = Untagged \<and>
   startsWith Untagged ''org.qmatrixclient.'' \<and>
   deleteTag (createIndex 0 0 (- 1)) (two_accounts, accounts_model) = Some (two_accounts, accounts_model)"
proof -
  have v: "isValidGroupIndex accounts_model (createIndex 0 0 (- 1))"
    by code_simp
  have c: "caption (m_roomGroups accounts_model ! nat (row (createIndex 0 0 (- 1)))) = Untagged"
    by (simp add: accounts_model_def)
  have s: "startsWith Untagged ''org.qmatrixclient.''"
    by (simp add: startsWith_def Untagged_def)
  from deleteTag_guards [of accounts_model "createIndex 0 0 (- 1)" two_accounts] c s v
  show ?thesis by simp
qed

end
